theory Spec2Isabelle
  imports Complex_Main "HOL-Library.Word"
begin

section \<open>Quota tracker of the connection manager\<close>

text \<open>
  The connection manager (package connection) keeps two counters and the time of the last
  reset. Go's \<open>time.Time\<close> is read by the code only through \<open>Day()\<close> (day of the month) and
  \<open>Hour()\<close> (hour of the day), so a time value is modelled by its civil fields in the
  manager's location. \<open>time.Now()\<close> is an explicit argument \<open>now\<close>. The counters are Go
  \<open>int\<close>s; they are only reset to 0 and incremented by one, and are modelled as \<open>int\<close>.
\<close>

record time =
  Year :: int
  Month :: nat
  Day :: nat
  Hour :: nat
  Minute :: nat
  Second :: nat
  Nanosecond :: nat

record RateLimitConfig =
  DailyConnectionLimit :: int
  HourlyConnectionLimit :: int

record ConnectionManager =
  config :: RateLimitConfig
  dailyCount :: int
  hourlyCount :: int
  lastReset :: time

definition checkAndResetCounts :: "time \<Rightarrow> ConnectionManager \<Rightarrow> ConnectionManager" where
  "checkAndResetCounts now c =
     (if Day now \<noteq> Day (lastReset c)
      then c\<lparr>dailyCount := 0, hourlyCount := 0, lastReset := now\<rparr>
      else if Hour now \<noteq> Hour (lastReset c)
      then c\<lparr>hourlyCount := 0, lastReset := now\<rparr>
      else c)"

definition canSendConnection :: "time \<Rightarrow> ConnectionManager \<Rightarrow> bool \<times> ConnectionManager" where
  "canSendConnection now c =
     (let c1 = checkAndResetCounts now c in
      if dailyCount c1 \<ge> DailyConnectionLimit (config c1) then (False, c1)
      else if hourlyCount c1 \<ge> HourlyConnectionLimit (config c1) then (False, c1)
      else (True, c1))"

definition incrementCount :: "ConnectionManager \<Rightarrow> ConnectionManager" where
  "incrementCount c = c\<lparr>dailyCount := dailyCount c + 1, hourlyCount := hourlyCount c + 1\<rparr>"

definition GetRemainingQuota :: "time \<Rightarrow> ConnectionManager \<Rightarrow> (int \<times> int) \<times> ConnectionManager" where
  "GetRemainingQuota now c =
     (let c1 = checkAndResetCounts now c in
      ((DailyConnectionLimit (config c1) - dailyCount c1,
        HourlyConnectionLimit (config c1) - hourlyCount c1), c1))"

text \<open>\<open>New\<close>: a fresh manager has both counters at 0 and \<open>lastReset = time.Now()\<close>.\<close>

definition New :: "RateLimitConfig \<Rightarrow> time \<Rightarrow> ConnectionManager" where
  "New cfg now = \<lparr>config = cfg, dailyCount = 0, hourlyCount = 0, lastReset = now\<rparr>"

subsection \<open>Scenarios: calls made during one day, and the following calendar day\<close>

text \<open>
  A driver's calls to the tracker: \<open>RecordAction\<close> is \<open>incrementCount\<close>, \<open>CanProceed t\<close> is a
  call of \<open>canSendConnection\<close> at time \<open>t\<close> (its answer is dropped, its lazy reset is kept).
\<close>

datatype call = RecordAction | CanProceed time

fun run_call :: "call \<Rightarrow> ConnectionManager \<Rightarrow> ConnectionManager" where
  "run_call RecordAction c = incrementCount c"
| "run_call (CanProceed t) c = snd (canSendConnection t c)"

fun run_calls :: "call list \<Rightarrow> ConnectionManager \<Rightarrow> ConnectionManager" where
  "run_calls [] c = c"
| "run_calls (x # xs) c = run_calls xs (run_call x c)"

fun call_on_day :: "nat \<Rightarrow> call \<Rightarrow> bool" where
  "call_on_day d RecordAction = True"
| "call_on_day d (CanProceed t) = (Day t = d)"

definition leap_year :: "int \<Rightarrow> bool" where
  "leap_year y = (y mod 4 = 0 \<and> (y mod 100 \<noteq> 0 \<or> y mod 400 = 0))"

definition days_in_month :: "int \<Rightarrow> nat \<Rightarrow> nat" where
  "days_in_month y m =
     (if m = 2 then (if leap_year y then 29 else 28)
      else if m = 4 \<or> m = 6 \<or> m = 9 \<or> m = 11 then 30 else 31)"

definition valid_date :: "time \<Rightarrow> bool" where
  "valid_date t = (1 \<le> Month t \<and> Month t \<le> 12 \<and> 1 \<le> Day t \<and> Day t \<le> days_in_month (Year t) (Month t))"

text \<open>The calendar date following the date of \<open>t\<close> (the clock fields are kept).\<close>

definition next_day :: "time \<Rightarrow> time" where
  "next_day t =
     (if Day t < days_in_month (Year t) (Month t) then t\<lparr>Day := Day t + 1\<rparr>
      else if Month t < 12 then t\<lparr>Month := Month t + 1, Day := 1\<rparr>
      else t\<lparr>Year := Year t + 1, Month := 1, Day := 1\<rparr>)"

definition same_date :: "time \<Rightarrow> time \<Rightarrow> bool" where
  "same_date a b = (Year a = Year b \<and> Month a = Month b \<and> Day a = Day b)"

subsection \<open>Facts about the tracker\<close>

lemma days_in_month_ge: "28 \<le> days_in_month y m"
  by (simp add: days_in_month_def)

lemma next_day_Day: "valid_date t \<Longrightarrow> Day (next_day t) \<noteq> Day t"
proof -
  assume v: "valid_date t"
  have "28 \<le> days_in_month (Year t) (Month t)" by (rule days_in_month_ge)
  then show ?thesis using v by (auto simp: next_day_def valid_date_def)
qed

lemma checkAndResetCounts_config [simp]: "config (checkAndResetCounts now c) = config c"
  by (simp add: checkAndResetCounts_def)

lemma run_call_same_day:
  assumes "call_on_day (Day (lastReset c)) x"
  shows "Day (lastReset (run_call x c)) = Day (lastReset c)"
    and "config (run_call x c) = config c"
    and "dailyCount (run_call x c) = dailyCount c + (if x = RecordAction then 1 else 0)"
  using assms
  by (cases x; simp add: incrementCount_def canSendConnection_def Let_def checkAndResetCounts_def)+

lemma run_calls_same_day:
  assumes "list_all (call_on_day (Day (lastReset c))) xs"
  shows "Day (lastReset (run_calls xs c)) = Day (lastReset c) \<and>
         config (run_calls xs c) = config c \<and>
         dailyCount (run_calls xs c) = dailyCount c + int (count_list xs RecordAction)"
  using assms
proof (induction xs arbitrary: c)
  case Nil
  then show ?case by simp
next
  case (Cons x xs)
  from Cons.prems have x: "call_on_day (Day (lastReset c)) x"
    and xs: "list_all (call_on_day (Day (lastReset c))) xs" by simp_all
  note step = run_call_same_day [OF x]
  from xs step(1) have "list_all (call_on_day (Day (lastReset (run_call x c)))) xs" by simp
  from Cons.IH [OF this] step show ?case by (cases "x = RecordAction") simp_all
qed


subsection \<open>Concrete times and trackers\<close>

definition jan15 :: time where
  "jan15 = \<lparr>Year = 2024, Month = 1, Day = 15, Hour = 10, Minute = 0, Second = 0, Nanosecond = 0\<rparr>"

definition jan15_late :: time where
  "jan15_late = \<lparr>Year = 2024, Month = 1, Day = 15, Hour = 10, Minute = 45, Second = 0, Nanosecond = 0\<rparr>"

definition jan16 :: time where
  "jan16 = \<lparr>Year = 2024, Month = 1, Day = 16, Hour = 9, Minute = 30, Second = 0, Nanosecond = 0\<rparr>"

definition feb15_next_year :: time where
  "feb15_next_year = \<lparr>Year = 2025, Month = 2, Day = 15, Hour = 10, Minute = 30, Second = 0, Nanosecond = 0\<rparr>"

definition limits_2_5 :: RateLimitConfig where
  "limits_2_5 = \<lparr>DailyConnectionLimit = 2, HourlyConnectionLimit = 5\<rparr>"

definition limits_1_0 :: RateLimitConfig where
  "limits_1_0 = \<lparr>DailyConnectionLimit = 1, HourlyConnectionLimit = 0\<rparr>"

definition used_tracker :: ConnectionManager where
  "used_tracker = \<lparr>config = limits_2_5, dailyCount = 2, hourlyCount = 1, lastReset = jan15\<rparr>"

section \<open>Properties of the quota tracker\<close>

text \<open>
  C10. The reset decision of \<open>checkAndResetCounts\<close> looks only at the day of the month and
  the hour of the day: whenever the current time and \<open>lastReset\<close> agree on both, whatever
  their months and years, the call leaves both counters and \<open>lastReset\<close> as they were, so
  the daily count survives a gap of exactly one month or one year.
\<close>

theorem checkAndResetCounts_same_day_hour:
  assumes "Day now = Day (lastReset c)" and "Hour now = Hour (lastReset c)"
  shows "dailyCount (checkAndResetCounts now c) = dailyCount c \<and>
         hourlyCount (checkAndResetCounts now c) = hourlyCount c \<and>
         lastReset (checkAndResetCounts now c) = lastReset c \<and>
         checkAndResetCounts now c = c"
  using assms by (simp add: checkAndResetCounts_def)

theorem checkAndResetCounts_same_day_hour_witness:
  "Day feb15_next_year = Day (lastReset used_tracker) \<and>
   Hour feb15_next_year = Hour (lastReset used_tracker) \<and>
   Month feb15_next_year \<noteq> Month (lastReset used_tracker) \<and>
   Year feb15_next_year \<noteq> Year (lastReset used_tracker) \<and>
   dailyCount (checkAndResetCounts feb15_next_year used_tracker) = 2 \<and>
   hourlyCount (checkAndResetCounts feb15_next_year used_tracker) = 1 \<and>
   lastReset (checkAndResetCounts feb15_next_year used_tracker) = jan15"
proof -
  have d: "Day feb15_next_year = Day (lastReset used_tracker)"
    by (simp add: feb15_next_year_def used_tracker_def jan15_def)
  have h: "Hour feb15_next_year = Hour (lastReset used_tracker)"
    by (simp add: feb15_next_year_def used_tracker_def jan15_def)
  from checkAndResetCounts_same_day_hour [OF d h] d h show ?thesis
    by (simp add: feb15_next_year_def used_tracker_def jan15_def)
qed

text \<open>
  C4, as stated, fails: \<open>GetRemainingQuota\<close> starts with the lazy reset, so a call on a later
  day zeroes the counters and re-stamps \<open>lastReset\<close>.
\<close>

theorem GetRemainingQuota_mutates:
  "\<not> (dailyCount (snd (GetRemainingQuota jan16 used_tracker)) = dailyCount used_tracker \<and>
      hourlyCount (snd (GetRemainingQuota jan16 used_tracker)) = hourlyCount used_tracker \<and>
      lastReset (snd (GetRemainingQuota jan16 used_tracker)) = lastReset used_tracker)"
  by (simp add: GetRemainingQuota_def checkAndResetCounts_def Let_def used_tracker_def jan16_def jan15_def)

text \<open>
  C4, amended. \<open>GetRemainingQuota\<close> leaves the daily counter, the hourly counter and
  \<open>lastReset\<close> unchanged when the current time has the day of the month and the hour of the
  day of \<open>lastReset\<close>; at any other time it applies the lazy reset before it reads: the
  hourly counter becomes 0 and \<open>lastReset\<close> the current time, and the daily counter becomes
  0 when the day of the month differs and is kept otherwise. The limits are never changed,
  and the returned pair is the limits minus the counters after that reset.
\<close>

theorem GetRemainingQuota_frame:
  "(Day now = Day (lastReset c) \<and> Hour now = Hour (lastReset c) \<longrightarrow>
      snd (GetRemainingQuota now c) = c) \<and>
   (Day now \<noteq> Day (lastReset c) \<or> Hour now \<noteq> Hour (lastReset c) \<longrightarrow>
      hourlyCount (snd (GetRemainingQuota now c)) = 0 \<and>
      lastReset (snd (GetRemainingQuota now c)) = now \<and>
      dailyCount (snd (GetRemainingQuota now c)) =
        (if Day now \<noteq> Day (lastReset c) then 0 else dailyCount c)) \<and>
   config (snd (GetRemainingQuota now c)) = config c \<and>
   fst (GetRemainingQuota now c) =
     (DailyConnectionLimit (config c) - dailyCount (snd (GetRemainingQuota now c)),
      HourlyConnectionLimit (config c) - hourlyCount (snd (GetRemainingQuota now c)))"
  by (simp add: GetRemainingQuota_def checkAndResetCounts_def Let_def)

theorem GetRemainingQuota_frame_witness:
  "Day jan15_late = Day (lastReset used_tracker) \<and> Hour jan15_late = Hour (lastReset used_tracker) \<and>
   snd (GetRemainingQuota jan15_late used_tracker) = used_tracker \<and>
   Day jan16 \<noteq> Day (lastReset used_tracker) \<and>
   hourlyCount (snd (GetRemainingQuota jan16 used_tracker)) = 0 \<and>
   lastReset (snd (GetRemainingQuota jan16 used_tracker)) = jan16 \<and>
   dailyCount (snd (GetRemainingQuota jan16 used_tracker)) = 0"
proof -
  have a: "Day jan15_late = Day (lastReset used_tracker) \<and> Hour jan15_late = Hour (lastReset used_tracker)"
    by (simp add: jan15_late_def used_tracker_def jan15_def)
  have b: "Day jan16 \<noteq> Day (lastReset used_tracker)"
    by (simp add: jan16_def used_tracker_def jan15_def)
  from GetRemainingQuota_frame [of jan15_late used_tracker] a
  have 1: "snd (GetRemainingQuota jan15_late used_tracker) = used_tracker" by blast
  from GetRemainingQuota_frame [of jan16 used_tracker] b
  have 2: "hourlyCount (snd (GetRemainingQuota jan16 used_tracker)) = 0 \<and>
      lastReset (snd (GetRemainingQuota jan16 used_tracker)) = jan16 \<and>
      dailyCount (snd (GetRemainingQuota jan16 used_tracker)) = 0" by simp
  from a b 1 2 show ?thesis by blast
qed

text \<open>
  C3, as stated, fails for a configuration whose hourly limit is 0 (it passes the
  configuration's validation, which checks the daily limit only): after the day rollover
  both counters are 0, and \<open>canSendConnection\<close> still answers false.
\<close>

theorem rollover_hourly_limit_zero:
  "\<not> fst (canSendConnection (next_day jan15)
        (snd (canSendConnection jan15 (run_calls [RecordAction] (New limits_1_0 jan15)))))"
  by (simp add: canSendConnection_def checkAndResetCounts_def incrementCount_def Let_def
      New_def limits_1_0_def jan15_def next_day_def days_in_month_def)

text \<open>
  C3, amended. Start from a tracker whose daily counter is 0 and let every call be made on
  the day of \<open>lastReset\<close>. After exactly \<open>DailyConnectionLimit\<close> calls of \<open>incrementCount\<close>,
  interleaved with any number of checks, \<open>canSendConnection\<close> on that day answers false.
  If both limits are at least 1, the next call of \<open>canSendConnection\<close> on the following
  calendar day answers true and leaves both counters at 0.
\<close>

theorem daily_limit_then_rollover:
  assumes fresh: "dailyCount c0 = 0"
    and day: "list_all (call_on_day (Day (lastReset c0))) calls"
    and n: "int (count_list calls RecordAction) = DailyConnectionLimit (config c0)"
    and now: "Day now = Day (lastReset c0)"
    and valid: "valid_date now"
    and later: "same_date now' (next_day now)"
  shows "\<not> fst (canSendConnection now (run_calls calls c0)) \<and>
         (1 \<le> DailyConnectionLimit (config c0) \<and> 1 \<le> HourlyConnectionLimit (config c0) \<longrightarrow>
            fst (canSendConnection now' (snd (canSendConnection now (run_calls calls c0)))) \<and>
            dailyCount (snd (canSendConnection now'
               (snd (canSendConnection now (run_calls calls c0))))) = 0 \<and>
            hourlyCount (snd (canSendConnection now'
               (snd (canSendConnection now (run_calls calls c0))))) = 0)"
proof -
  define c1 where "c1 = run_calls calls c0"
  define c2 where "c2 = snd (canSendConnection now c1)"
  from run_calls_same_day [OF day] fresh n
  have c1: "Day (lastReset c1) = Day (lastReset c0)" "config c1 = config c0"
    "dailyCount c1 = DailyConnectionLimit (config c0)"
    by (simp_all add: c1_def)
  from c1 now have first: "\<not> fst (canSendConnection now c1)"
    by (simp add: canSendConnection_def checkAndResetCounts_def Let_def)
  from c1 now have c2: "Day (lastReset c2) = Day now" "config c2 = config c0"
    by (simp_all add: c2_def canSendConnection_def checkAndResetCounts_def Let_def)
  from later have "Day now' = Day (next_day now)" by (simp add: same_date_def)
  with next_day_Day [OF valid] c2 have diff: "Day now' \<noteq> Day (lastReset c2)" by simp
  have second: "1 \<le> DailyConnectionLimit (config c0) \<and> 1 \<le> HourlyConnectionLimit (config c0) \<longrightarrow>
      fst (canSendConnection now' c2) \<and> dailyCount (snd (canSendConnection now' c2)) = 0 \<and>
      hourlyCount (snd (canSendConnection now' c2)) = 0"
    using diff c2 by (simp add: canSendConnection_def checkAndResetCounts_def Let_def)
  from first second show ?thesis by (simp add: c1_def c2_def)
qed

theorem daily_limit_then_rollover_witness:
  "dailyCount (New limits_2_5 jan15) = 0 \<and>
   list_all (call_on_day (Day (lastReset (New limits_2_5 jan15))))
     [CanProceed jan15, RecordAction, CanProceed jan15_late, RecordAction] \<and>
   int (count_list [CanProceed jan15, RecordAction, CanProceed jan15_late, RecordAction] RecordAction)
     = DailyConnectionLimit (config (New limits_2_5 jan15)) \<and>
   valid_date jan15_late \<and> same_date jan16 (next_day jan15_late) \<and>
   1 \<le> DailyConnectionLimit (config (New limits_2_5 jan15)) \<and>
   1 \<le> HourlyConnectionLimit (config (New limits_2_5 jan15)) \<and>
   \<not> fst (canSendConnection jan15_late
     (run_calls [CanProceed jan15, RecordAction, CanProceed jan15_late, RecordAction] (New limits_2_5 jan15))) \<and>
   fst (canSendConnection jan16 (snd (canSendConnection jan15_late
     (run_calls [CanProceed jan15, RecordAction, CanProceed jan15_late, RecordAction] (New limits_2_5 jan15))))) \<and>
   dailyCount (snd (canSendConnection jan16 (snd (canSendConnection jan15_late
     (run_calls [CanProceed jan15, RecordAction, CanProceed jan15_late, RecordAction] (New limits_2_5 jan15)))))) = 0 \<and>
   hourlyCount (snd (canSendConnection jan16 (snd (canSendConnection jan15_late
     (run_calls [CanProceed jan15, RecordAction, CanProceed jan15_late, RecordAction] (New limits_2_5 jan15)))))) = 0"
proof -
  let ?c0 = "New limits_2_5 jan15"
  let ?calls = "[CanProceed jan15, RecordAction, CanProceed jan15_late, RecordAction]"
  have fresh: "dailyCount ?c0 = 0" by (simp add: New_def)
  have day: "list_all (call_on_day (Day (lastReset ?c0))) ?calls"
    by (simp add: New_def jan15_def jan15_late_def)
  have n: "int (count_list ?calls RecordAction) = DailyConnectionLimit (config ?c0)"
    by (simp add: New_def limits_2_5_def)
  have now: "Day jan15_late = Day (lastReset ?c0)" by (simp add: New_def jan15_def jan15_late_def)
  have valid: "valid_date jan15_late"
    by (simp add: valid_date_def jan15_late_def days_in_month_def)
  have later: "same_date jan16 (next_day jan15_late)"
    by (simp add: same_date_def next_day_def jan16_def jan15_late_def days_in_month_def)
  have lim: "1 \<le> DailyConnectionLimit (config ?c0) \<and> 1 \<le> HourlyConnectionLimit (config ?c0)"
    by (simp add: New_def limits_2_5_def)
  from daily_limit_then_rollover [OF fresh day n now valid later] lim fresh day n valid later
  show ?thesis by blast
qed


section \<open>Random source and numeric conversions\<close>

text \<open>
  Every controller of package stealth owns a \<open>*rand.Rand\<close>. The model makes no assumption
  on the generator: a source is an arbitrary stream of draws and a position in it.
  \<open>Intn n\<close> panics for \<open>n \<le> 0\<close> and otherwise returns a value in \<open>[0, n)\<close>; \<open>Float64\<close>
  returns the next float draw (in \<open>[0, 1)\<close> for a well-formed source). A panic is the error
  \<open>Panic\<close>; a float division by a zero divisor, whose result in Go is a NaN or an
  infinity, is the error \<open>NotANumber\<close>.

  \<open>float64\<close> arithmetic is taken as exact arithmetic on \<open>real\<close>; a conversion
  \<open>int(x)\<close> truncates towards zero. Go's \<open>int\<close> is 64 bits wide; where wrap-around can
  be reached it is a \<open>64 word\<close>, and the result of converting a NaN or an out-of-range
  float, which Go leaves to the implementation, is a parameter (\<open>float_conv\<close>).
\<close>

datatype error = Panic | NotANumber

record rand_src =
  intDraws :: "nat \<Rightarrow> nat"
  floatDraws :: "nat \<Rightarrow> real"
  pos :: nat

definition Intn :: "int \<Rightarrow> rand_src \<Rightarrow> error + (int \<times> rand_src)" where
  "Intn n r = (if n \<le> 0 then Inl Panic
               else Inr (int (intDraws r (pos r)) mod n, r\<lparr>pos := pos r + 1\<rparr>))"

definition Float64 :: "rand_src \<Rightarrow> real \<times> rand_src" where
  "Float64 r = (floatDraws r (pos r), r\<lparr>pos := pos r + 1\<rparr>)"

definition trunc :: "real \<Rightarrow> int" where
  "trunc x = (if 0 \<le> x then \<lfloor>x\<rfloor> else \<lceil>x\<rceil>)"

text \<open>Go's integer division truncates towards zero.\<close>

definition quot :: "int \<Rightarrow> int \<Rightarrow> int" where
  "quot a b = (if (a < 0) = (b < 0) then \<bar>a\<bar> div \<bar>b\<bar> else - (\<bar>a\<bar> div \<bar>b\<bar>))"

type_synonym go_int = "64 word"

record float_conv =
  nanToInt :: go_int
  rangeToInt :: "real \<Rightarrow> go_int"

definition toInt :: "float_conv \<Rightarrow> real \<Rightarrow> go_int" where
  "toInt fc x = (if - (2 ^ 63) \<le> trunc x \<and> trunc x < 2 ^ 63 then word_of_int (trunc x)
                 else rangeToInt fc x)"

definition Millisecond :: int where
  "Millisecond = 1000000"

text \<open>Concrete sources and conversions (amd64 converts NaN and out-of-range floats to \<open>-2^63\<close>).\<close>

definition constRand :: "nat \<Rightarrow> real \<Rightarrow> rand_src" where
  "constRand k f = \<lparr>intDraws = (\<lambda>i. k), floatDraws = (\<lambda>i. f), pos = 0\<rparr>"

definition amd64_conv :: float_conv where
  "amd64_conv = \<lparr>nanToInt = - (2 ^ 63), rangeToInt = (\<lambda>x. - (2 ^ 63))\<rparr>"


section \<open>Scroll sequences (stealth/scrolling.go)\<close>

text \<open>
  Distances and speeds of \<open>GenerateScrollSequence\<close> are modelled as \<open>int\<close>: the loop only
  subtracts chunks bounded by the remaining distance, so no wrap-around is reached for
  distances and speeds far below \<open>2^62\<close>. A \<open>time.Duration\<close> is its number of nanoseconds.
\<close>

record ScrollingConfig =
  Enabled :: bool
  MinScrollSpeed :: int
  MaxScrollSpeed :: int
  ScrollBackChance :: real
  PauseChance :: real
  SmoothScrolling :: bool

record ScrollAction =
  Delta :: int
  Duration :: int
  Direction :: string

definition calculateScrollAmount :: "int \<Rightarrow> int \<Rightarrow> rand_src \<Rightarrow> error + (int \<times> rand_src)" where
  "calculateScrollAmount remaining speed r =
     (case Intn (quot speed 2) r of
        Inl e \<Rightarrow> Inl e
      | Inr (k, r1) \<Rightarrow>
          (let baseAmount = speed + k;
               (f, r2) = Float64 r1;
               variation = real_of_int baseAmount * (2 / 10) * (f * 2 - 1);
               amount = trunc (real_of_int baseAmount + variation);
               amount = (if amount > remaining then remaining else amount);
               amount = (if amount < 10 then 10 else amount)
           in Inr (amount, r2)))"

definition calculateScrollDuration :: "ScrollingConfig \<Rightarrow> int \<Rightarrow> rand_src \<Rightarrow> error + (int \<times> rand_src)" where
  "calculateScrollDuration cfg distance r =
     (if SmoothScrolling cfg then
        (let baseDuration = real_of_int distance / 2;
             (f, r1) = Float64 r;
             variation = baseDuration * (3 / 10) * (f * 2 - 1)
         in Inr (trunc (baseDuration + variation) * Millisecond, r1))
      else
        (case Intn 100 r of
           Inl e \<Rightarrow> Inl e
         | Inr (k, r1) \<Rightarrow> Inr ((50 + k) * Millisecond, r1)))"

text \<open>One pass through the body of the loop.\<close>

definition scrollBack :: "ScrollingConfig \<Rightarrow> int \<Rightarrow> int \<Rightarrow> rand_src \<Rightarrow> error + (ScrollAction list \<times> rand_src)" where
  "scrollBack cfg remaining scrollAmount r =
     (if remaining > scrollAmount * 2 then
        (let (f, r1) = Float64 r in
         if f < ScrollBackChance cfg then
           (let backAmount = quot scrollAmount 3 in
            case calculateScrollDuration cfg backAmount r1 of
              Inl e \<Rightarrow> Inl e
            | Inr (d, r2) \<Rightarrow> Inr ([\<lparr>Delta = backAmount, Duration = d, Direction = ''up''\<rparr>], r2))
         else Inr ([], r1))
      else Inr ([], r))"

definition scrollPause :: "ScrollingConfig \<Rightarrow> rand_src \<Rightarrow> error + (ScrollAction list \<times> rand_src)" where
  "scrollPause cfg r =
     (let (f, r1) = Float64 r in
      if f < PauseChance cfg then
        (case Intn 2000 r1 of
           Inl e \<Rightarrow> Inl e
         | Inr (k, r2) \<Rightarrow> Inr ([\<lparr>Delta = 0, Duration = (500 + k) * Millisecond, Direction = ''pause''\<rparr>], r2))
      else Inr ([], r1))"

definition scrollStep :: "ScrollingConfig \<Rightarrow> int \<Rightarrow> rand_src \<Rightarrow> error + (ScrollAction list \<times> int \<times> rand_src)" where
  "scrollStep cfg remaining r =
     (case Intn (MaxScrollSpeed cfg - MinScrollSpeed cfg + 1) r of
        Inl e \<Rightarrow> Inl e
      | Inr (k, r1) \<Rightarrow>
          (let speed = MinScrollSpeed cfg + k in
           case calculateScrollAmount remaining speed r1 of
             Inl e \<Rightarrow> Inl e
           | Inr (scrollAmount, r2) \<Rightarrow>
               (case scrollBack cfg remaining scrollAmount r2 of
                  Inl e \<Rightarrow> Inl e
                | Inr (back, r3) \<Rightarrow>
                    (case calculateScrollDuration cfg scrollAmount r3 of
                       Inl e \<Rightarrow> Inl e
                     | Inr (d, r4) \<Rightarrow>
                         (case scrollPause cfg r4 of
                            Inl e \<Rightarrow> Inl e
                          | Inr (pause, r5) \<Rightarrow>
                              Inr (back @ [\<lparr>Delta = scrollAmount, Duration = d, Direction = ''down''\<rparr>] @ pause,
                                   scrollAmount, r5))))))"

lemma calculateScrollAmount_ge:
  "calculateScrollAmount remaining speed r = Inr (a, r') \<Longrightarrow> 10 \<le> a"
  by (auto simp: calculateScrollAmount_def Let_def split: sum.splits prod.splits if_splits)

lemma scrollStep_ge:
  "scrollStep cfg remaining r = Inr (new, a, r') \<Longrightarrow> 10 \<le> a"
  by (auto simp: scrollStep_def Let_def split: sum.splits prod.splits dest: calculateScrollAmount_ge)

function scrollLoop :: "ScrollingConfig \<Rightarrow> int \<Rightarrow> rand_src \<Rightarrow> ScrollAction list \<Rightarrow> error + ScrollAction list" where
  "scrollLoop cfg remaining r actions =
     (if remaining > 0 then
        (case scrollStep cfg remaining r of
           Inl e \<Rightarrow> Inl e
         | Inr (new, scrollAmount, r') \<Rightarrow> scrollLoop cfg (remaining - scrollAmount) r' (actions @ new))
      else Inr actions)"
  by pat_completeness auto
termination
proof (relation "measure (\<lambda>(cfg, remaining, r, actions). nat remaining)")
  show "wf (measure (\<lambda>(cfg, remaining, r, actions). nat remaining))" by simp
next
  fix cfg :: ScrollingConfig and remaining :: int and r :: rand_src and actions :: "ScrollAction list"
    and x2 new y scrollAmount r'
  assume "0 < remaining" and "scrollStep cfg remaining r = Inr x2" and "(new, y) = x2" and "(scrollAmount, r') = y"
  then have "scrollStep cfg remaining r = Inr (new, scrollAmount, r')" by simp
  from scrollStep_ge [OF this] \<open>0 < remaining\<close>
  show "((cfg, remaining - scrollAmount, r', actions @ new), cfg, remaining, r, actions)
        \<in> measure (\<lambda>(cfg, remaining, r, actions). nat remaining)" by simp
qed

definition GenerateScrollSequence :: "ScrollingConfig \<Rightarrow> rand_src \<Rightarrow> int \<Rightarrow> error + ScrollAction list" where
  "GenerateScrollSequence cfg r totalDistance =
     (if \<not> ScrollingConfig.Enabled cfg then Inr [\<lparr>Delta = totalDistance, Duration = 0, Direction = ''down''\<rparr>]
      else scrollLoop cfg totalDistance r [])"

declare scrollLoop.simps [simp del]

text \<open>
  The values that the loop variables \<open>remaining\<close> and \<open>scrollAmount\<close> take at each pass
  through the loop of \<open>GenerateScrollSequence\<close>, in order (empty when a draw panics).
\<close>

function scrollChunks :: "ScrollingConfig \<Rightarrow> int \<Rightarrow> rand_src \<Rightarrow> (int \<times> int) list" where
  "scrollChunks cfg remaining r =
     (if remaining > 0 then
        (case scrollStep cfg remaining r of
           Inl e \<Rightarrow> []
         | Inr (new, scrollAmount, r') \<Rightarrow>
             (remaining, scrollAmount) # scrollChunks cfg (remaining - scrollAmount) r')
      else [])"
  by pat_completeness auto
termination
proof (relation "measure (\<lambda>(cfg, remaining, r). nat remaining)")
  show "wf (measure (\<lambda>(cfg, remaining, r). nat remaining))" by simp
next
  fix cfg :: ScrollingConfig and remaining :: int and r :: rand_src
    and x2 new y scrollAmount r'
  assume "0 < remaining" and "scrollStep cfg remaining r = Inr x2" and "(new, y) = x2" and "(scrollAmount, r') = y"
  then have "scrollStep cfg remaining r = Inr (new, scrollAmount, r')" by simp
  from scrollStep_ge [OF this] \<open>0 < remaining\<close>
  show "((cfg, remaining - scrollAmount, r'), cfg, remaining, r)
        \<in> measure (\<lambda>(cfg, remaining, r). nat remaining)" by simp
qed

declare scrollChunks.simps [simp del]

text \<open>
  No pass through the loop scrolls further than the distance that remains: the chunk
  returned by \<open>calculateScrollAmount\<close> is never above \<open>remaining\<close>. (The cut
  \<open>amount = remaining\<close> ensures it unless the floor of 10, applied after the cut, raises
  the chunk again.)
\<close>

definition chunksWithinRemaining :: "ScrollingConfig \<Rightarrow> rand_src \<Rightarrow> int \<Rightarrow> bool" where
  "chunksWithinRemaining cfg r totalDistance =
     list_all (\<lambda>(remaining, scrollAmount). scrollAmount \<le> remaining) (scrollChunks cfg totalDistance r)"



definition downSum :: "ScrollAction list \<Rightarrow> int" where
  "downSum acts = sum_list (map Delta (filter (\<lambda>a. Direction a = ''down'') acts))"

definition upSum :: "ScrollAction list \<Rightarrow> int" where
  "upSum acts = sum_list (map Delta (filter (\<lambda>a. Direction a = ''up'') acts))"


text \<open>The default configuration of the repository.\<close>

definition defaultScrolling :: ScrollingConfig where
  "defaultScrolling = \<lparr>ScrollingConfig.Enabled = True, MinScrollSpeed = 50, MaxScrollSpeed = 200,
     ScrollBackChance = 1 / 10, PauseChance = 15 / 100, SmoothScrolling = True\<rparr>"

subsection \<open>Smooth sub-steps\<close>

text \<open>
  \<open>GenerateSmoothScrollSteps\<close> works on Go \<open>int\<close>s whose intermediate values can wrap
  (a negative total doubles the residual at every step), so they are 64-bit words here.
\<close>

text \<open>The body of the loop for an index other than the last one.\<close>

definition smoothStep :: "float_conv \<Rightarrow> go_int \<Rightarrow> nat \<Rightarrow> nat \<Rightarrow> go_int \<Rightarrow> rand_src \<Rightarrow> go_int \<times> rand_src" where
  "smoothStep fc totalDelta numSteps i remaining r =
     (let t = real i / real (numSteps - 1);
          eased = 1 - (1 - t) ^ 3;
          step = (if totalDelta = 0 then nanToInt fc
                  else toInt fc (real_of_int (sint totalDelta) *
                         (eased - real_of_int (sint (totalDelta - remaining)) /
                                  real_of_int (sint totalDelta))));
          (f, r1) = Float64 r;
          variation = toInt fc (real_of_int (sint step) * (1 / 10) * (f * 2 - 1));
          step = step + variation;
          step = (if sint step > sint remaining \<and> sint remaining > 0 then remaining else step);
          step = (if sint step < sint (- remaining) \<and> sint remaining < 0 then - remaining else step)
      in (step, r1))"

text \<open>The loop of \<open>GenerateSmoothScrollSteps\<close> over the indices \<open>0 \<dots> numSteps - 1\<close>.\<close>

fun smoothLoop :: "float_conv \<Rightarrow> go_int \<Rightarrow> nat \<Rightarrow> nat list \<Rightarrow> go_int \<Rightarrow> rand_src \<Rightarrow> go_int list" where
  "smoothLoop fc totalDelta numSteps [] remaining r = []"
| "smoothLoop fc totalDelta numSteps (i # rest) remaining r =
     (if i = numSteps - 1 then remaining # smoothLoop fc totalDelta numSteps rest remaining r
      else (let (step, r1) = smoothStep fc totalDelta numSteps i remaining r
            in step # smoothLoop fc totalDelta numSteps rest (remaining - step) r1))"

definition smoothNumSteps :: "go_int \<Rightarrow> nat" where
  "smoothNumSteps totalDelta =
     (let numSteps = trunc (\<bar>real_of_int (sint totalDelta)\<bar> / 20);
          numSteps = (if numSteps < 5 then 5 else numSteps);
          numSteps = (if numSteps > 50 then 50 else numSteps)
      in nat numSteps)"

definition GenerateSmoothScrollSteps :: "ScrollingConfig \<Rightarrow> float_conv \<Rightarrow> rand_src \<Rightarrow> go_int \<Rightarrow> go_int list" where
  "GenerateSmoothScrollSteps cfg fc r totalDelta =
     (if \<not> SmoothScrolling cfg then [totalDelta]
      else smoothLoop fc totalDelta (smoothNumSteps totalDelta) [0..<smoothNumSteps totalDelta] totalDelta r)"


subsection \<open>Facts about scroll sequences\<close>


lemma downSum_append [simp]: "downSum (xs @ ys) = downSum xs + downSum ys"
  by (simp add: downSum_def)

lemma upSum_append [simp]: "upSum (xs @ ys) = upSum xs + upSum ys"
  by (simp add: upSum_def)

lemma downSum_Cons:
  "downSum (x # xs) = (if Direction x = ''down'' then Delta x else 0) + downSum xs"
  by (simp add: downSum_def)

lemma upSum_Cons:
  "upSum (x # xs) = (if Direction x = ''up'' then Delta x else 0) + upSum xs"
  by (simp add: upSum_def)

lemma quot_nonneg: "0 \<le> a \<Longrightarrow> 0 \<le> b \<Longrightarrow> 0 \<le> quot a b"
  by (simp add: quot_def div_int_pos_iff)

lemma calculateScrollAmount_le:
  "calculateScrollAmount remaining speed r = Inr (a, r') \<Longrightarrow> a \<le> max 10 remaining"
  by (auto simp: calculateScrollAmount_def Let_def split: sum.splits prod.splits if_splits)

lemma scrollBack_sums:
  assumes "scrollBack cfg remaining a r = Inr (back, r')" and "0 \<le> a"
  shows "downSum back = 0 \<and> 0 \<le> upSum back"
  using assms
  by (auto simp: scrollBack_def Let_def downSum_def upSum_def quot_nonneg
      split: sum.splits prod.splits if_splits)

lemma scrollPause_sums:
  assumes "scrollPause cfg r = Inr (pause, r')"
  shows "downSum pause = 0 \<and> upSum pause = 0"
  using assms
  by (auto simp: scrollPause_def Let_def downSum_def upSum_def split: sum.splits prod.splits if_splits)

lemma scrollStep_sums:
  assumes "scrollStep cfg remaining r = Inr (new, a, r')"
  shows "downSum new = a \<and> 0 \<le> upSum new \<and> 10 \<le> a \<and> a \<le> max 10 remaining"
proof -
  from assms obtain k r1 r2 bk r3 d r4 pz where
    amt: "calculateScrollAmount remaining (MinScrollSpeed cfg + k) r1 = Inr (a, r2)"
    and bk: "scrollBack cfg remaining a r2 = Inr (bk, r3)"
    and pz: "scrollPause cfg r4 = Inr (pz, r')"
    and new: "new = bk @ [\<lparr>Delta = a, Duration = d, Direction = ''down''\<rparr>] @ pz"
    by (auto simp: scrollStep_def Let_def split: sum.splits prod.splits)
  from calculateScrollAmount_ge [OF amt] have a: "10 \<le> a" .
  from scrollBack_sums [OF bk] a have b: "downSum bk = 0 \<and> 0 \<le> upSum bk" by simp
  from scrollPause_sums [OF pz] have p: "downSum pz = 0 \<and> upSum pz = 0" .
  from a b p calculateScrollAmount_le [OF amt] show ?thesis
    by (simp add: new downSum_Cons upSum_Cons)
qed

lemma scrollLoop_sums:
  "scrollLoop cfg remaining r actions = Inr res \<Longrightarrow>
     (remaining \<le> 0 \<longrightarrow> res = actions) \<and>
     (0 < remaining \<longrightarrow> remaining \<le> downSum res - downSum actions \<and>
                          downSum res - downSum actions \<le> remaining + 9) \<and>
     upSum actions \<le> upSum res"
proof (induction cfg remaining r actions rule: scrollLoop.induct)
  case (1 cfg remaining r actions)
  show ?case
  proof (cases "0 < remaining")
    case False
    with "1.prems" show ?thesis by (simp add: scrollLoop.simps)
  next
    case True
    with "1.prems" obtain new a r' where
      step: "scrollStep cfg remaining r = Inr (new, a, r')"
      and rest: "scrollLoop cfg (remaining - a) r' (actions @ new) = Inr res"
      by (auto simp: scrollLoop.simps [of cfg remaining] split: sum.splits)
    from scrollStep_sums [OF step] have s: "downSum new = a" "0 \<le> upSum new" "10 \<le> a" "a \<le> max 10 remaining"
      by simp_all
    from "1.IH" [OF True step refl refl rest]
    have ih: "(remaining - a \<le> 0 \<longrightarrow> res = actions @ new)"
      "(0 < remaining - a \<longrightarrow> remaining - a \<le> downSum res - downSum (actions @ new) \<and>
          downSum res - downSum (actions @ new) \<le> remaining - a + 9)"
      "upSum (actions @ new) \<le> upSum res" by simp_all
    show ?thesis
    proof (cases "0 < remaining - a")
      case True
      with ih s \<open>0 < remaining\<close> show ?thesis by simp
    next
      case False
      with ih have "res = actions @ new" by simp
      with s False \<open>0 < remaining\<close> show ?thesis by auto
    qed
  qed
qed


















text \<open>
  A chunk is at least 10 and at most the larger of 10 and the remaining distance, so it
  exceeds the remaining distance exactly when fewer than 10 remain.
\<close>

lemma scrollChunks_bounds:
  "list_all (\<lambda>(remaining, scrollAmount). 10 \<le> scrollAmount \<and> scrollAmount \<le> max 10 remaining)
     (scrollChunks cfg remaining r)"
proof (induction cfg remaining r rule: scrollChunks.induct)
  case (1 cfg remaining r)
  show ?case
  proof (cases "0 < remaining")
    case False
    then show ?thesis by (simp add: scrollChunks.simps)
  next
    case True
    show ?thesis
    proof (cases "scrollStep cfg remaining r")
      case (Inl e)
      with True show ?thesis by (simp add: scrollChunks.simps [of cfg remaining])
    next
      case (Inr x)
      obtain new a r' where x: "x = (new, a, r')" by (cases x)
      from scrollStep_sums [OF Inr [unfolded x]] have "10 \<le> a" "a \<le> max 10 remaining" by simp_all
      with "1.IH" [OF True Inr [unfolded x] refl refl] True Inr x show ?thesis
        by (simp add: scrollChunks.simps [of cfg remaining])
    qed
  qed
qed

lemma within_iff_ge_10:
  "list_all (\<lambda>(remaining, scrollAmount). 10 \<le> scrollAmount \<and> scrollAmount \<le> max 10 remaining) xs \<Longrightarrow>
   list_all (\<lambda>(remaining, scrollAmount). scrollAmount \<le> remaining) xs =
   list_all (\<lambda>(remaining :: int, scrollAmount :: int). 10 \<le> remaining) xs"
  by (induction xs) auto

lemma chunksWithinRemaining_iff:
  "chunksWithinRemaining cfg r totalDistance =
     list_all (\<lambda>(remaining, scrollAmount). 10 \<le> remaining) (scrollChunks cfg totalDistance r)"
  unfolding chunksWithinRemaining_def
  by (rule within_iff_ge_10 [OF scrollChunks_bounds])

lemma smoothNumSteps_range: "5 \<le> smoothNumSteps d \<and> smoothNumSteps d \<le> 50"
  by (auto simp: smoothNumSteps_def Let_def)

lemma length_smoothLoop: "length (smoothLoop fc d n is rem r) = length is"
  by (induction "is" arbitrary: rem r) (simp_all add: case_prod_beta)

lemma sum_smoothLoop:
  "i < n \<Longrightarrow> sum_list (smoothLoop fc d n [i..<n] rem r) = rem"
proof (induction "n - i" arbitrary: i rem r)
  case 0
  then show ?case by simp
next
  case (Suc k)
  from Suc.prems have upt: "[i..<n] = i # [Suc i..<n]" by (simp add: upt_conv_Cons)
  show ?case
  proof (cases "i = n - 1")
    case True
    with Suc.prems have "[Suc i..<n] = []" by simp
    with True upt show ?thesis by simp
  next
    case False
    with Suc.prems have lt: "Suc i < n" by simp
    from Suc.hyps(2) have k: "k = n - Suc i" by simp
    have ih: "sum_list (smoothLoop fc d n [Suc i..<n] rem' r') = rem'" for rem' r'
      by (rule Suc.hyps(1) [OF k lt])
    from False show ?thesis
      by (simp add: upt case_prod_beta ih)
  qed
qed



section \<open>Properties of scroll sequences\<close>

subsection \<open>Two runs of the default configuration\<close>





subsection \<open>The signed sum of a sequence\<close>




subsection \<open>The floor of a chunk\<close>

text \<open>
  The floor of 10 in \<open>calculateScrollAmount\<close> is applied after the cut to the remaining
  distance, so the last chunk can be larger than what remains: for a total distance of 5
  the only chunk is 10. Such a run scrolls further than the distance that remained, and
  the property above says nothing about its forward sum.
\<close>

lemma floor_chunk_example:
  "GenerateScrollSequence defaultScrolling (constRand 0 (1 / 2)) 5 =
     Inr [\<lparr>Delta = 10, Duration = 5000000, Direction = ''down''\<rparr>]"
  by (simp add: GenerateScrollSequence_def scrollLoop.simps defaultScrolling_def constRand_def
      scrollStep_def Intn_def Float64_def calculateScrollAmount_def calculateScrollDuration_def
      scrollBack_def scrollPause_def quot_def trunc_def Millisecond_def Let_def)

lemma floor_chunk_not_within:
  "scrollChunks defaultScrolling 5 (constRand 0 (1 / 2)) = [(5, 10)] \<and>
   \<not> chunksWithinRemaining defaultScrolling (constRand 0 (1 / 2)) 5"
  by (simp add: chunksWithinRemaining_def scrollChunks.simps defaultScrolling_def constRand_def
      scrollStep_def Intn_def Float64_def calculateScrollAmount_def calculateScrollDuration_def
      scrollBack_def scrollPause_def quot_def trunc_def Millisecond_def Let_def)


section \<open>Delays (stealth/timing.go)\<close>

text \<open>
  A \<open>time.Duration\<close> is an \<open>int64\<close> count of nanoseconds and \<open>attempt\<close> a Go \<open>int\<close>; both
  are 64-bit words, so that the shift \<open>1 << uint(attempt)\<close>, the product and the final sum
  wrap as in Go (a shift count of 64 or more gives 0).
\<close>

definition ExponentialBackoff :: "float_conv \<Rightarrow> go_int \<Rightarrow> go_int \<Rightarrow> go_int \<Rightarrow> rand_src \<Rightarrow> go_int \<times> rand_src" where
  "ExponentialBackoff fc attempt base maxDelay r =
     (let delay = base * push_bit (unat attempt) 1;
          delay = (if sint delay > sint maxDelay then maxDelay else delay);
          (f, r1) = Float64 r;
          jitter = toInt fc (real_of_int (sint delay) * (3 / 10) * f)
      in (delay + jitter, r1))"


text \<open>A source whose first float draw is 0.9 and whose later draws are 0.\<close>

definition highThenLow :: rand_src where
  "highThenLow = \<lparr>intDraws = (\<lambda>i. 0), floatDraws = (\<lambda>i. if i = 0 then 9 / 10 else 0), pos = 0\<rparr>"

subsection \<open>Facts about 64-bit values and truncation\<close>

lemma sint_of_int_range:
  "- (2 ^ 63) \<le> k \<Longrightarrow> k < 2 ^ 63 \<Longrightarrow> sint (word_of_int k :: 64 word) = k"
proof -
  assume a: "- (2 ^ 63) \<le> k" and b: "k < 2 ^ 63"
  have "sint (word_of_int k :: 64 word) = signed_take_bit (LENGTH(64) - 1) k"
    by (rule sint_sbintrunc')
  also have "LENGTH(64) - 1 = (63::nat)" by simp
  also have "signed_take_bit 63 k = k" using a b by (rule signed_take_bit_int_eq_self)
  finally show ?thesis .
qed

lemma two63: "(2::int) ^ 63 = 9223372036854775808"
  by simp

lemma sint_pow2: "n < 63 \<Longrightarrow> sint (push_bit n (1 :: 64 word)) = 2 ^ n"
proof -
  assume n: "n < 63"
  have lt: "(2::int) ^ n < 2 ^ 63" using n by (intro power_strict_increasing) simp_all
  have "(0::int) \<le> 2 ^ n" by simp
  then have ge: "- (2 ^ 63) \<le> (2::int) ^ n" unfolding two63 by linarith
  have e: "(word_of_int (2 ^ n) :: 64 word) = push_bit n 1" by simp
  from sint_of_int_range [OF ge lt] show ?thesis unfolding e .
qed

lemma sint_mult_range:
  assumes "- (2 ^ 63) \<le> sint (x :: 64 word) * sint y" and "sint x * sint y < 2 ^ 63"
  shows "sint (x * y) = sint x * sint y"
proof -
  have e: "(word_of_int (sint x * sint y) :: 64 word) = x * y" by simp
  from sint_of_int_range [OF assms] show ?thesis unfolding e .
qed

lemma sint_add_range:
  assumes "- (2 ^ 63) \<le> sint (x :: 64 word) + sint y" and "sint x + sint y < 2 ^ 63"
  shows "sint (x + y) = sint x + sint y"
proof -
  have e: "(word_of_int (sint x + sint y) :: 64 word) = x + y" by simp
  from sint_of_int_range [OF assms] show ?thesis unfolding e .
qed

lemma trunc_nonneg: "0 \<le> x \<Longrightarrow> 0 \<le> trunc x \<and> real_of_int (trunc x) \<le> x"
  by (simp add: trunc_def)

lemma trunc_mono_nonneg: "0 \<le> x \<Longrightarrow> x \<le> y \<Longrightarrow> trunc x \<le> trunc y"
  by (simp add: trunc_def floor_mono)

text \<open>The value of a call in the range without overflow.\<close>

lemma ExponentialBackoff_value:
  assumes b: "0 < sint base" and c: "0 < sint maxDelay"
    and ov: "13 * (sint base * 2 ^ unat a) < 10 * 2 ^ 63"
    and f: "0 \<le> fst (Float64 r)" "fst (Float64 r) < 1"
  shows "sint (fst (ExponentialBackoff fc a base maxDelay r)) =
           min (sint base * 2 ^ unat a) (sint maxDelay) +
           trunc (real_of_int (min (sint base * 2 ^ unat a) (sint maxDelay)) * (3 / 10) * fst (Float64 r))"
proof -
  define n where "n = unat a"
  define B where "B = sint base"
  define d where "d = min (B * 2 ^ n) (sint maxDelay)"
  define g where "g = fst (Float64 r)"
  have p1: "1 \<le> (2::int) ^ n" by simp
  from b have Bpos: "1 \<le> B" by (simp add: B_def)
  from ov have ov': "13 * (B * 2 ^ n) < 10 * 2 ^ 63" by (simp add: B_def n_def)
  from Bpos p1 have "1 * 2 ^ n \<le> B * 2 ^ n" by (intro mult_right_mono) simp_all
  then have le: "2 ^ n \<le> B * 2 ^ n" by simp
  from le ov' have "(2::int) ^ n < 2 ^ 63" unfolding two63 by linarith
  then have n63: "n < 63" by (rule power_less_imp_less_exp [rotated]) simp
  have Bn_pos: "0 < B * 2 ^ n" using Bpos by simp
  from ov' Bn_pos have Bn_lt: "B * 2 ^ n < 2 ^ 63" unfolding two63 by linarith
  have shift: "sint (push_bit n (1 :: 64 word)) = 2 ^ n" by (rule sint_pow2 [OF n63])
  define P :: "64 word" where "P = base * push_bit n 1"
  have prod: "sint P = B * 2 ^ n"
  proof -
    have "sint (base * push_bit n 1) = sint base * sint (push_bit n (1 :: 64 word))"
    proof (rule sint_mult_range)
      from Bn_pos show "- (2 ^ 63) \<le> sint base * sint (push_bit n (1 :: 64 word))"
        unfolding shift B_def two63 by linarith
      from Bn_lt show "sint base * sint (push_bit n (1 :: 64 word)) < 2 ^ 63"
        unfolding shift B_def .
    qed
    then show ?thesis unfolding shift B_def P_def .
  qed
  define delay :: "64 word" where
    "delay = (if sint P > sint maxDelay then maxDelay else P)"
  have delay: "sint delay = d"
    unfolding delay_def d_def min_def using prod by auto
  have dpos: "0 < d" using Bn_pos c by (simp add: d_def)
  have dle: "d \<le> B * 2 ^ n" by (simp add: d_def)
  define x where "x = real_of_int d * (3 / 10) * g"
  have g: "0 \<le> g" "g < 1" using f by (simp_all add: g_def)
  have d3: "0 \<le> real_of_int d * (3 / 10)" using dpos by simp
  have x0: "0 \<le> x" unfolding x_def using d3 g(1) by (rule mult_nonneg_nonneg)
  have "real_of_int d * (3 / 10) * g \<le> real_of_int d * (3 / 10) * 1"
    using g(2) d3 by (intro mult_left_mono) simp_all
  then have xle: "x \<le> real_of_int d * (3 / 10)" by (simp add: x_def)
  from trunc_nonneg [OF x0] have t0: "0 \<le> trunc x" and tle: "real_of_int (trunc x) \<le> x" by simp_all
  from tle xle have "real_of_int (trunc x) * 10 \<le> real_of_int d * 3" by simp
  then have "real_of_int (trunc x * 10) \<le> real_of_int (d * 3)" by simp
  then have t3: "trunc x * 10 \<le> d * 3" by (simp only: of_int_le_iff)
  from t3 dle ov' have tlt: "trunc x < 2 ^ 63" unfolding two63 by linarith
  from t0 have tge: "- (2 ^ 63) \<le> trunc x" unfolding two63 by linarith
  have "toInt fc x = word_of_int (trunc x)" unfolding toInt_def using tge tlt by (rule_tac if_P) (rule conjI)
  with sint_of_int_range [OF tge tlt] have conv: "sint (toInt fc x) = trunc x" by simp
  have sum: "sint (delay + toInt fc x) = d + trunc x"
  proof -
    have "sint (delay + toInt fc x) = sint delay + sint (toInt fc x)"
    proof (rule sint_add_range)
      from t0 dpos show "- (2 ^ 63) \<le> sint delay + sint (toInt fc x)"
        unfolding delay conv two63 by linarith
      from t3 dle ov' show "sint delay + sint (toInt fc x) < 2 ^ 63"
        unfolding delay conv two63 by linarith
    qed
    then show ?thesis unfolding delay conv .
  qed
  have "fst (ExponentialBackoff fc a base maxDelay r) = delay + toInt fc (real_of_int (sint delay) * (3 / 10) * g)"
    unfolding ExponentialBackoff_def Let_def case_prod_beta fst_conv delay_def P_def g_def n_def ..
  then have "fst (ExponentialBackoff fc a base maxDelay r) = delay + toInt fc x"
    unfolding x_def delay .
  with sum show ?thesis unfolding d_def x_def g_def n_def B_def by (simp only:)
qed



lemma trunc_27_10: "trunc (27 / 10) = 2"
  by (simp add: trunc_def)

lemma trunc_0: "trunc 0 = 0"
  by (simp add: trunc_def)

section \<open>Properties of the delays\<close>

text \<open>
  C8, as stated, fails: every call draws its own jitter. With base and cap both 10 ns, a
  first call for attempt 0 that draws 0.9 returns 12, and the next call on the same
  source, for attempt 1, draws 0 and returns 10.
\<close>

theorem backoff_jitter_counterexample:
  "\<not> sint (fst (ExponentialBackoff amd64_conv 0 10 10 highThenLow))
      \<le> sint (fst (ExponentialBackoff amd64_conv 1 10 10
            (snd (ExponentialBackoff amd64_conv 0 10 10 highThenLow))))"
proof -
  have 1: "fst (ExponentialBackoff amd64_conv 0 10 10 highThenLow) = 12"
    unfolding ExponentialBackoff_def Let_def Float64_def highThenLow_def toInt_def amd64_conv_def
    by (simp add: trunc_27_10)
  have 2: "snd (ExponentialBackoff amd64_conv 0 10 10 highThenLow) = highThenLow\<lparr>pos := 1\<rparr>"
    unfolding ExponentialBackoff_def Let_def Float64_def highThenLow_def
    by simp
  have 3: "fst (ExponentialBackoff amd64_conv 1 10 10 (highThenLow\<lparr>pos := 1\<rparr>)) = 10"
    unfolding ExponentialBackoff_def Let_def Float64_def highThenLow_def toInt_def amd64_conv_def
    by (simp add: trunc_0)
  show ?thesis unfolding 2 unfolding 1 3 by simp
qed

text \<open>
  C8, amended. Let base and cap be positive and let \<open>a \<le> a'\<close> be attempts for which
  \<open>1.3 \<times> base \<times> 2^a'\<close> stays below \<open>2^63\<close> ns (nothing wraps), with jitter draws in
  \<open>[0, 1)\<close>. Then the value returned for \<open>a\<close> lies between \<open>d = min (base \<times> 2^a) cap\<close> and
  \<open>1.3 \<times> d\<close>, hence never exceeds \<open>1.3 \<times> cap\<close>; it is at most the value returned for \<open>a'\<close>
  when both calls draw the same jitter, and, for any two draws, when \<open>a < a'\<close> and
  \<open>base \<times> 2^a'\<close> is still at most the cap.
\<close>

theorem ExponentialBackoff_bounds:
  assumes b: "0 < sint base" and c: "0 < sint maxDelay"
    and le: "unat a \<le> unat a'"
    and ov: "13 * (sint base * 2 ^ unat a') < 10 * 2 ^ 63"
    and f: "0 \<le> fst (Float64 r)" "fst (Float64 r) < 1"
    and f': "0 \<le> fst (Float64 r')" "fst (Float64 r') < 1"
  shows "min (sint base * 2 ^ unat a) (sint maxDelay) \<le> sint (fst (ExponentialBackoff fc a base maxDelay r)) \<and>
         real_of_int (sint (fst (ExponentialBackoff fc a base maxDelay r)))
           \<le> real_of_int (min (sint base * 2 ^ unat a) (sint maxDelay)) * (13 / 10) \<and>
         real_of_int (sint (fst (ExponentialBackoff fc a base maxDelay r)))
           \<le> real_of_int (sint maxDelay) * (13 / 10) \<and>
         (fst (Float64 r) = fst (Float64 r') \<longrightarrow>
            sint (fst (ExponentialBackoff fc a base maxDelay r))
              \<le> sint (fst (ExponentialBackoff fc a' base maxDelay r'))) \<and>
         (unat a < unat a' \<and> sint base * 2 ^ unat a' \<le> sint maxDelay \<longrightarrow>
            sint (fst (ExponentialBackoff fc a base maxDelay r))
              \<le> sint (fst (ExponentialBackoff fc a' base maxDelay r')))"
proof -
  define B where "B = sint base"
  define C where "C = sint maxDelay"
  define d where "d = min (B * 2 ^ unat a) C"
  define d' where "d' = min (B * 2 ^ unat a') C"
  define g where "g = fst (Float64 r)"
  define g' where "g' = fst (Float64 r')"
  define v where "v = sint (fst (ExponentialBackoff fc a base maxDelay r))"
  define v' where "v' = sint (fst (ExponentialBackoff fc a' base maxDelay r'))"
  from b have Bpos: "0 < B" by (simp add: B_def)
  have pw: "(2::int) ^ unat a \<le> 2 ^ unat a'" using le by (intro power_increasing) simp_all
  from Bpos pw have Ble: "B * 2 ^ unat a \<le> B * 2 ^ unat a'" by (intro mult_left_mono) simp_all
  from ov have ov': "13 * (B * 2 ^ unat a') < 10 * 2 ^ 63" by (simp only: B_def)
  from Ble ov' have ova: "13 * (B * 2 ^ unat a) < 10 * 2 ^ 63" unfolding two63 by linarith
  have v: "v = d + trunc (real_of_int d * (3 / 10) * g)"
    unfolding v_def d_def g_def B_def C_def
    by (rule ExponentialBackoff_value [OF b c _ f]) (use ova in \<open>simp only: B_def\<close>)
  have v': "v' = d' + trunc (real_of_int d' * (3 / 10) * g')"
    unfolding v'_def d'_def g'_def B_def C_def
    by (rule ExponentialBackoff_value [OF b c ov f'])
  have Bn: "0 < B * 2 ^ unat a" "0 < B * 2 ^ unat a'" using Bpos by simp_all
  have dpos: "0 < d" "0 < d'" using Bn c by (simp_all add: d_def d'_def C_def)
  have dd': "d \<le> d'" using Ble by (simp add: d_def d'_def min_def)
  have dC: "d \<le> C" by (simp add: d_def)
  have g: "0 \<le> g" "g < 1" "0 \<le> g'" "g' < 1" using f f' by (simp_all add: g_def g'_def)
  have d3: "0 \<le> real_of_int d * (3 / 10)" "0 \<le> real_of_int d' * (3 / 10)" using dpos by simp_all
  have x0: "0 \<le> real_of_int d * (3 / 10) * g" using d3(1) g(1) by (rule mult_nonneg_nonneg)
  have x0': "0 \<le> real_of_int d' * (3 / 10) * g'" using d3(2) g(3) by (rule mult_nonneg_nonneg)
  have "real_of_int d * (3 / 10) * g \<le> real_of_int d * (3 / 10) * 1"
    using g(2) d3(1) by (intro mult_left_mono) simp_all
  then have xle: "real_of_int d * (3 / 10) * g \<le> real_of_int d * (3 / 10)" by simp
  note t = trunc_nonneg [OF x0]
  note t' = trunc_nonneg [OF x0']
  have lower: "d \<le> v" using t by (simp add: v)
  have lower': "d' \<le> v'" using t' by (simp add: v')
  have "real_of_int v = real_of_int d + real_of_int (trunc (real_of_int d * (3 / 10) * g))"
    by (simp add: v)
  also have "\<dots> \<le> real_of_int d + real_of_int d * (3 / 10)" using t xle by linarith
  also have "\<dots> = real_of_int d * (13 / 10)" by simp
  finally have upper: "real_of_int v \<le> real_of_int d * (13 / 10)" .
  have "real_of_int d * (13 / 10) \<le> real_of_int C * (13 / 10)" using dC by simp
  with upper have cap: "real_of_int v \<le> real_of_int C * (13 / 10)" by linarith
  have same: "v \<le> v'" if "g = g'"
  proof -
    have "real_of_int d * (3 / 10) * g \<le> real_of_int d' * (3 / 10) * g"
      using dd' g(1) by (intro mult_right_mono) simp_all
    from trunc_mono_nonneg [OF x0 this] dd' that show ?thesis by (simp add: v v')
  qed
  have below: "v \<le> v'" if "unat a < unat a'" and "B * 2 ^ unat a' \<le> C"
  proof -
    from that(1) have "Suc (unat a) \<le> unat a'" by simp
    then have "(2::int) ^ Suc (unat a) \<le> 2 ^ unat a'" by (intro power_increasing) simp_all
    with Bpos have "B * 2 ^ Suc (unat a) \<le> B * 2 ^ unat a'" by (intro mult_left_mono) simp_all
    then have two: "2 * (B * 2 ^ unat a) \<le> B * 2 ^ unat a'" by simp
    from that(2) have d'eq: "d' = B * 2 ^ unat a'" by (simp add: d'_def)
    have "d \<le> B * 2 ^ unat a" by (simp add: d_def)
    with two d'eq have "2 * d \<le> d'" by linarith
    then have "real_of_int (2 * d) \<le> real_of_int d'" by (simp only: of_int_le_iff)
    with upper dpos have "real_of_int v \<le> real_of_int d'" by simp
    then have "v \<le> d'" by (simp only: of_int_le_iff)
    with lower' show ?thesis by linarith
  qed
  from lower upper cap same below show ?thesis
    unfolding v_def v'_def d_def g_def g'_def B_def C_def by blast
qed

theorem ExponentialBackoff_bounds_witness:
  "0 < sint (1000000000 :: go_int) \<and> 0 < sint (60000000000 :: go_int) \<and>
   unat (5 :: go_int) < unat (6 :: go_int) \<and>
   13 * (sint (1000000000 :: go_int) * 2 ^ unat (6 :: go_int)) < 10 * 2 ^ 63 \<and>
   0 \<le> fst (Float64 highThenLow) \<and> fst (Float64 highThenLow) < 1 \<and>
   0 \<le> fst (Float64 (constRand 0 0)) \<and> fst (Float64 (constRand 0 0)) < 1 \<and>
   sint (1000000000 :: go_int) * 2 ^ unat (6 :: go_int) > sint (60000000000 :: go_int) \<and>
   sint (1000000000 :: go_int) * 2 ^ unat (5 :: go_int) \<le> sint (60000000000 :: go_int) \<and>
   real_of_int (sint (fst (ExponentialBackoff amd64_conv 6 1000000000 60000000000 highThenLow)))
     \<le> real_of_int (sint (60000000000 :: go_int)) * (13 / 10) \<and>
   sint (fst (ExponentialBackoff amd64_conv 5 1000000000 60000000000 highThenLow))
     \<le> sint (fst (ExponentialBackoff amd64_conv 6 1000000000 60000000000 highThenLow)) \<and>
   sint (fst (ExponentialBackoff amd64_conv 4 1000000000 60000000000 highThenLow))
     \<le> sint (fst (ExponentialBackoff amd64_conv 5 1000000000 60000000000 (constRand 0 0)))"
proof -
  have b: "0 < sint (1000000000 :: go_int)" by simp
  have c: "0 < sint (60000000000 :: go_int)" by simp
  have le56: "unat (5 :: go_int) \<le> unat (6 :: go_int)" by simp
  have le66: "unat (6 :: go_int) \<le> unat (6 :: go_int)" by simp
  have le45: "unat (4 :: go_int) \<le> unat (5 :: go_int)" by simp
  have lt45: "unat (4 :: go_int) < unat (5 :: go_int)" by simp
  have ov6: "13 * (sint (1000000000 :: go_int) * 2 ^ unat (6 :: go_int)) < 10 * 2 ^ 63" by simp
  have ov5: "13 * (sint (1000000000 :: go_int) * 2 ^ unat (5 :: go_int)) < 10 * 2 ^ 63" by simp
  have f: "0 \<le> fst (Float64 highThenLow)" "fst (Float64 highThenLow) < 1"
    by (simp_all add: Float64_def highThenLow_def)
  have f0: "0 \<le> fst (Float64 (constRand 0 0))" "fst (Float64 (constRand 0 0)) < 1"
    by (simp_all add: Float64_def constRand_def)
  have over: "sint (1000000000 :: go_int) * 2 ^ unat (6 :: go_int) > sint (60000000000 :: go_int)" by simp
  have under: "sint (1000000000 :: go_int) * 2 ^ unat (5 :: go_int) \<le> sint (60000000000 :: go_int)" by simp
  from ExponentialBackoff_bounds [OF b c le66 ov6 f f, of amd64_conv]
  have 1: "real_of_int (sint (fst (ExponentialBackoff amd64_conv 6 1000000000 60000000000 highThenLow)))
     \<le> real_of_int (sint (60000000000 :: go_int)) * (13 / 10)" by blast
  from ExponentialBackoff_bounds [OF b c le56 ov6 f f, of amd64_conv]
  have 2: "sint (fst (ExponentialBackoff amd64_conv 5 1000000000 60000000000 highThenLow))
     \<le> sint (fst (ExponentialBackoff amd64_conv 6 1000000000 60000000000 highThenLow))" by blast
  from ExponentialBackoff_bounds [OF b c le45 ov5 f f0, of amd64_conv] lt45 under
  have 3: "sint (fst (ExponentialBackoff amd64_conv 4 1000000000 60000000000 highThenLow))
     \<le> sint (fst (ExponentialBackoff amd64_conv 5 1000000000 60000000000 (constRand 0 0)))" by blast
  from b c lt45 ov6 f f0 over under 1 2 3 show ?thesis
    by (intro conjI) simp_all
qed

text \<open>
  Outside that range the shift and the product wrap: for attempt 64 the shifted factor is
  0, so the delay is 0 whatever the base; for attempt 63 and base 1 ns the delay is
  \<open>-2^63\<close>, and adding the negative jitter wraps to a value above any cap.
\<close>

lemma backoff_shift_64_example:
  "fst (ExponentialBackoff amd64_conv 64 1000000000 60000000000 (constRand 0 (1 / 2))) = 0"
  unfolding ExponentialBackoff_def Let_def Float64_def constRand_def toInt_def amd64_conv_def
  by (simp add: trunc_0)

lemma trunc_wrap: "trunc (- (342417686868233551872 / 125)) = - 2739341494945868414"
  by (simp add: trunc_def)

lemma backoff_shift_63_example:
  "sint (fst (ExponentialBackoff amd64_conv 63 1 60000000000 (constRand 0 (99 / 100)))) =
     6484030541908907394"
  unfolding ExponentialBackoff_def Let_def Float64_def constRand_def toInt_def amd64_conv_def
  by (simp add: trunc_wrap)


section \<open>Properties of smooth sub-steps (stealth/scrolling.go)\<close>

subsection \<open>Facts about a run with a negative total\<close>

lemma sint_m20000: "sint (- 20000 :: 64 word) = - 20000"
  by simp

lemma smoothNumSteps_m20000: "smoothNumSteps (- 20000) = 50"
  by (simp add: smoothNumSteps_def trunc_def Let_def)

lemma pow_le_48: "i < 49 \<Longrightarrow> (2::int) ^ i \<le> 2 ^ 48"
  by (rule power_increasing) simp_all

lemma eased_range:
  assumes "i < 49"
  shows "0 \<le> 1 - (1 - real i / 49) ^ 3 \<and> 1 - (1 - real i / 49) ^ 3 < 1"
proof -
  from assms have a: "0 < 1 - real i / 49" "1 - real i / 49 \<le> 1" by simp_all
  from a have "0 < (1 - real i / 49) ^ 3" by simp
  moreover from a have "(1 - real i / 49) ^ 3 \<le> 1" by (simp add: power_le_one)
  ultimately show ?thesis by simp
qed

lemma trunc_nonpos: "x \<le> 0 \<Longrightarrow> trunc x \<le> 0 \<and> x \<le> real_of_int (trunc x)"
  by (auto simp: trunc_def)

lemma toInt_0: "toInt fc 0 = 0"
  by (simp add: toInt_def trunc_0)

lemma trunc_ge: "real_of_int k \<le> x \<Longrightarrow> x \<le> 0 \<Longrightarrow> k \<le> trunc x"
  by (auto simp: trunc_def le_ceiling_iff)

text \<open>
  One pass through the loop for the total \<open>-20000\<close>, at an index \<open>i\<close> other than the last
  one, when the residual is \<open>-20000 * 2 ^ i\<close> and the float draw is 0.5 (no variation): the
  computed step is not positive, the second clamp replaces it by \<open>-remaining\<close>, and the
  sub-step is the positive value \<open>20000 * 2 ^ i\<close>.
\<close>

lemma smoothStep_doubling:
  assumes i: "i < 49" and f: "floatDraws r (pos r) = 1 / 2"
  shows "smoothStep fc (- 20000) 50 i (word_of_int (- (20000 * 2 ^ i))) r =
           (word_of_int (20000 * 2 ^ i), r\<lparr>pos := pos r + 1\<rparr>)"
proof -
  define B :: int where "B = 20000 * 2 ^ i"
  define e :: real where "e = 1 - (1 - real i / 49) ^ 3"
  define v :: real where "v = - 20000 * e - real_of_int (B - 20000)"
  have B1: "20000 \<le> B" by (simp add: B_def)
  have B2: "B \<le> 20000 * 2 ^ 48" using pow_le_48 [OF i] by (simp add: B_def)
  have B3: "B < 2 ^ 63" using B2 by simp
  have e: "0 \<le> e" "e < 1" using eased_range [OF i] by (simp_all add: e_def)
  have rem: "sint (word_of_int (- B) :: 64 word) = - B"
    using B1 B3 by (intro sint_of_int_range) simp_all
  have nrem: "sint (- (word_of_int (- B) :: 64 word)) = B"
  proof -
    have "- (word_of_int (- B) :: 64 word) = word_of_int B" by simp
    moreover have "sint (word_of_int B :: 64 word) = B"
      using B1 B3 by (intro sint_of_int_range) simp_all
    ultimately show ?thesis by simp
  qed
  have diff: "sint ((- 20000 :: 64 word) - word_of_int (- B)) = B - 20000"
  proof -
    have "(- 20000 :: 64 word) - word_of_int (- B) = word_of_int (B - 20000)" by simp
    moreover have "sint (word_of_int (B - 20000) :: 64 word) = B - 20000"
      using B1 B3 by (intro sint_of_int_range) simp_all
    ultimately show ?thesis by simp
  qed
  have v_le: "v \<le> 0" using e B1 by (simp add: v_def)
  have v_ge: "real_of_int (- B) \<le> v" using e by (simp add: v_def)
  have t_le: "trunc v \<le> 0" using trunc_nonpos [OF v_le] by simp
  have t_ge: "- B \<le> trunc v" using trunc_ge [OF v_ge v_le] .
  have conv: "toInt fc v = word_of_int (trunc v)"
    using t_le t_ge B3 by (simp add: toInt_def)
  have st: "sint (word_of_int (trunc v) :: 64 word) = trunc v"
    using t_le t_ge B3 by (intro sint_of_int_range) simp_all
  have expr: "real_of_int (sint (- 20000 :: 64 word)) *
      (e - real_of_int (sint ((- 20000 :: 64 word) - word_of_int (- B))) /
           real_of_int (sint (- 20000 :: 64 word))) = v"
    unfolding diff sint_m20000 by (simp add: v_def field_simps)
  have ne: "(- 20000 :: 64 word) \<noteq> 0" by simp
  have t49: "real i / real (50 - 1 :: nat) = real i / 49" by simp
  show ?thesis
    unfolding smoothStep_def Let_def Float64_def t49 e_def [symmetric] B_def [symmetric]
    using ne expr conv st rem nrem t_le B1 f
    by (simp add: toInt_0)
qed

lemma smoothLoop_doubling:
  assumes "i \<le> 49" and "\<forall>n. floatDraws r n = 1 / 2"
  shows "map sint (smoothLoop fc (- 20000) 50 [i..<50] (word_of_int (- (20000 * 2 ^ i))) r) =
           map (\<lambda>j. 20000 * 2 ^ j) [i..<49] @ [sint (word_of_int (- (20000 * 2 ^ 49)) :: 64 word)]"
  using assms
proof (induction "49 - i" arbitrary: i r)
  case 0
  then have i: "i = 49" by simp
  have "[49..<50] = [49::nat]" by (simp add: upt_conv_Cons)
  then show ?case unfolding i by simp
next
  case (Suc k)
  from Suc.hyps(2) have lt: "i < 49" by simp
  have upt: "[i..<50] = i # [Suc i..<50]" using lt by (simp add: upt_conv_Cons)
  have upt': "[i..<49] = i # [Suc i..<49]" using lt by (simp add: upt_conv_Cons)
  from Suc.prems(2) have f: "floatDraws r (pos r) = 1 / 2" by simp
  note st = smoothStep_doubling [OF lt f, of fc]
  have ne: "i \<noteq> 50 - 1" using lt by simp
  have k: "k = 49 - Suc i" using Suc.hyps(2) by simp
  have le: "Suc i \<le> 49" using lt by simp
  have f': "\<forall>n. floatDraws (r\<lparr>pos := pos r + 1\<rparr>) n = 1 / 2" using Suc.prems(2) by simp
  have next_rem: "(word_of_int (- (20000 * 2 ^ i)) :: 64 word) - word_of_int (20000 * 2 ^ i) =
      word_of_int (- (20000 * 2 ^ Suc i))"
    by simp
  have sB: "sint (word_of_int (20000 * 2 ^ i) :: 64 word) = 20000 * 2 ^ i"
  proof (rule sint_of_int_range)
    have "(0 :: int) \<le> 20000 * 2 ^ i" by simp
    then show "- (2 ^ 63) \<le> (20000 :: int) * 2 ^ i" unfolding two63 by linarith
    have "(20000 :: int) * 2 ^ i \<le> 20000 * 2 ^ 48" using pow_le_48 [OF lt] by simp
    then show "(20000 :: int) * 2 ^ i < 2 ^ 63" by simp
  qed
  have "smoothLoop fc (- 20000) 50 [i..<50] (word_of_int (- (20000 * 2 ^ i))) r =
      word_of_int (20000 * 2 ^ i) #
      smoothLoop fc (- 20000) 50 [Suc i..<50] (word_of_int (- (20000 * 2 ^ Suc i))) (r\<lparr>pos := pos r + 1\<rparr>)"
    unfolding upt using ne st next_rem by simp
  then show ?case
    using Suc.hyps(1) [OF k le f'] sB unfolding upt' by simp
qed

lemma geometric_sum: "sum_list (map (\<lambda>j. c * 2 ^ j) [0..<n]) = c * (2 ^ n - 1 :: int)"
  by (induction n) (simp_all add: algebra_simps)

lemma wrapped_residual: "sint (word_of_int (- (20000 * 2 ^ 49)) :: 64 word) = 7187745005283311616"
  by simp

subsection \<open>The sum of the sub-steps\<close>

text \<open>
  C9 at a concrete input: smooth scrolling enabled, a total of \<open>-20000\<close>, every float draw
  0.5 (no variation), any conversion of out-of-range floats (none is reached). There are 50
  sub-steps. For a negative residual the clamp
  \<open>if step < -remaining && remaining < 0 { step = -remaining }\<close> replaces every computed
  step by the positive value \<open>-remaining\<close>, so the residual doubles at every pass: the first
  49 sub-steps are \<open>20000 * 2 ^ i\<close> for \<open>i = 0, \<dots>, 48\<close>, and the last one, forced to the
  residual, is \<open>-20000 * 2 ^ 49\<close> wrapped to 64 bits, that is 7187745005283311616. All 50
  sub-steps are positive and their sum is \<open>2 ^ 64 - 20000\<close>, not \<open>-20000\<close>.
\<close>

theorem GenerateSmoothScrollSteps_negative_total:
  "map sint (GenerateSmoothScrollSteps defaultScrolling fc (constRand 0 (1 / 2)) (- 20000)) =
     map (\<lambda>j. 20000 * 2 ^ j) [0..<49] @ [7187745005283311616] \<and>
   sum_list (map sint (GenerateSmoothScrollSteps defaultScrolling fc (constRand 0 (1 / 2)) (- 20000))) =
     18446744073709531616 \<and>
   (18446744073709531616 :: int) \<noteq> sint (- 20000 :: go_int)"
proof -
  have f: "\<forall>n. floatDraws (constRand 0 (1 / 2)) n = 1 / 2" by (simp add: constRand_def)
  have s: "SmoothScrolling defaultScrolling" by (simp add: defaultScrolling_def)
  have "map sint (GenerateSmoothScrollSteps defaultScrolling fc (constRand 0 (1 / 2)) (- 20000)) =
      map sint (smoothLoop fc (- 20000) 50 [0..<50] (word_of_int (- (20000 * 2 ^ 0))) (constRand 0 (1 / 2)))"
    using s by (simp add: GenerateSmoothScrollSteps_def smoothNumSteps_m20000)
  also have "\<dots> = map (\<lambda>j. 20000 * 2 ^ j) [0..<49] @ [7187745005283311616]"
    using smoothLoop_doubling [OF _ f, of 0 fc] unfolding wrapped_residual by simp
  finally have steps: "map sint (GenerateSmoothScrollSteps defaultScrolling fc (constRand 0 (1 / 2)) (- 20000)) =
      map (\<lambda>j. 20000 * 2 ^ j) [0..<49] @ [7187745005283311616]" .
  have "sum_list (map (\<lambda>j. 20000 * 2 ^ j) [0..<49] @ [7187745005283311616 :: int]) = 18446744073709531616"
    unfolding sum_list_append geometric_sum by simp
  with steps show ?thesis by simp
qed

text \<open>
  A total of 0 is not guarded either: the float expression divides by \<open>float64(totalDelta)\<close>,
  so it is a NaN, and \<open>int(NaN)\<close> is left to the implementation. On amd64, where it is
  \<open>-2^63\<close>, the five sub-steps are four times \<open>-2^63\<close> and then 0.
\<close>

lemma smoothNumSteps_0: "smoothNumSteps 0 = 5"
  by (simp add: smoothNumSteps_def trunc_0 Let_def)

lemma GenerateSmoothScrollSteps_zero_total:
  "map sint (GenerateSmoothScrollSteps defaultScrolling amd64_conv (constRand 0 (1 / 2)) 0) =
     [- 9223372036854775808, - 9223372036854775808, - 9223372036854775808, - 9223372036854775808, 0] \<and>
   sum_list [- 9223372036854775808, - 9223372036854775808, - 9223372036854775808,
             - 9223372036854775808, 0 :: int] \<noteq> sint (0 :: go_int)"
  by (simp add: GenerateSmoothScrollSteps_def defaultScrolling_def smoothNumSteps_0 toInt_0 Let_def
     smoothStep_def amd64_conv_def constRand_def Float64_def upt_conv_Cons)

text \<open>
  What does hold for every total: the number of sub-steps lies between 5 and 50, and,
  because the last sub-step is the residual, the sub-steps add up to the total in Go's
  wrapping 64-bit arithmetic, that is modulo \<open>2 ^ 64\<close>.
\<close>

lemma GenerateSmoothScrollSteps_wrapped_sum:
  assumes "SmoothScrolling cfg"
  shows "5 \<le> length (GenerateSmoothScrollSteps cfg fc r totalDelta) \<and>
         length (GenerateSmoothScrollSteps cfg fc r totalDelta) \<le> 50 \<and>
         sum_list (GenerateSmoothScrollSteps cfg fc r totalDelta) = totalDelta"
proof -
  have "0 < smoothNumSteps totalDelta" using smoothNumSteps_range [of totalDelta] by simp
  from sum_smoothLoop [OF this] smoothNumSteps_range [of totalDelta] assms show ?thesis
    by (simp add: GenerateSmoothScrollSteps_def length_smoothLoop)
qed


section \<open>Pointer paths (stealth/mouse.go)\<close>

text \<open>
  Coordinates are \<open>float64\<close>, taken as \<open>real\<close>. Every float division whose divisor is a
  variable goes through \<open>fdiv\<close>, so a division by zero shows as the error \<open>NotANumber\<close>.
  \<open>math.Pow\<close> is only applied to integral exponents between 0 and the degree of the curve
  and is the power function (\<open>0 ^ 0 = 1\<close> in Go as in HOL). \<open>binomial\<close> works on Go \<open>int\<close>s;
  it is modelled without wrap-around, which is exact for curves of small degree.

  A point sampled at a parameter strictly between 0 and 1 is a sum of rounded products in
  \<open>float64\<close>, so its coordinates are those of the model only up to rounding. The points at
  the parameters 0 and 1 are exact (every weight is 0 or 1), and so are the lengths of the
  paths; the properties of this development state only these.
\<close>

record Point =
  X :: real
  Y :: real

record MouseMovementConfig =
  Enabled :: bool
  MinSpeed :: real
  MaxSpeed :: real
  OvershootEnabled :: bool
  MicroMovements :: bool
  BezierComplexity :: int

text \<open>A float division whose divisor is a variable: 0 as divisor gives NaN or an infinity.\<close>

definition fdiv :: "real \<Rightarrow> real \<Rightarrow> error + real" where
  "fdiv x y = (if y = 0 then Inl NotANumber else Inr (x / y))"

definition applyEasing :: "real \<Rightarrow> real" where
  "applyEasing t = t * t * (3 - 2 * t)"

definition binomial :: "int \<Rightarrow> int \<Rightarrow> int" where
  "binomial n k =
     (let k = (if k > n - k then n - k else k)
      in foldl (\<lambda>result i. quot (result * (n - int i)) (int i + 1)) 1 [0..<nat k])"

definition bernstein :: "int \<Rightarrow> int \<Rightarrow> real \<Rightarrow> real" where
  "bernstein n k t = real_of_int (binomial n k) * t ^ nat k * (1 - t) ^ nat (n - k)"

text \<open>The accumulation loop of \<open>bezierPoint\<close>; \<open>i\<close> is the index of the first point of the list.\<close>

fun bezierSum :: "int \<Rightarrow> real \<Rightarrow> int \<Rightarrow> Point list \<Rightarrow> real \<times> real \<Rightarrow> real \<times> real" where
  "bezierSum n t i [] (x, y) = (x, y)"
| "bezierSum n t i (p # ps) (x, y) =
     (let b = bernstein n i t in bezierSum n t (i + 1) ps (x + X p * b, y + Y p * b))"

definition bezierPoint :: "Point list \<Rightarrow> real \<Rightarrow> Point" where
  "bezierPoint points t =
     (let n = int (length points) - 1;
          (x, y) = bezierSum n t 0 points (0, 0)
      in \<lparr>X = x, Y = y\<rparr>)"

text \<open>The interior control points, for the indices \<open>1 \<dots> len - 2\<close>.\<close>

fun interiorPoints :: "Point \<Rightarrow> real \<Rightarrow> real \<Rightarrow> real \<Rightarrow> nat \<Rightarrow> nat list \<Rightarrow> rand_src
    \<Rightarrow> error + (Point list \<times> rand_src)" where
  "interiorPoints start dx dy distance len [] r = Inr ([], r)"
| "interiorPoints start dx dy distance len (i # rest) r =
     (case fdiv (real i) (real (len - 1)) of
        Inl e \<Rightarrow> Inl e
      | Inr progress \<Rightarrow>
          (let (f, r1) = Float64 r;
               deviation = distance * (3 / 10) * (f - 1 / 2)
           in case fdiv (- dy) distance of
                Inl e \<Rightarrow> Inl e
              | Inr qx \<Rightarrow>
                  (case fdiv dx distance of
                     Inl e \<Rightarrow> Inl e
                   | Inr qy \<Rightarrow>
                       (let perpX = qx * deviation;
                            perpY = qy * deviation;
                            p = \<lparr>X = X start + dx * progress + perpX, Y = Y start + dy * progress + perpY\<rparr>
                        in case interiorPoints start dx dy distance len rest r1 of
                             Inl e \<Rightarrow> Inl e
                           | Inr (ps, r2) \<Rightarrow> Inr (p # ps, r2)))))"

definition generateControlPoints :: "MouseMovementConfig \<Rightarrow> rand_src \<Rightarrow> Point \<Rightarrow> Point
    \<Rightarrow> error + (Point list \<times> rand_src)" where
  "generateControlPoints cfg r start end' =
     (let complexity = BezierComplexity cfg;
          complexity = (if complexity < 2 then 2 else complexity);
          len = nat (complexity + 2);
          dx = X end' - X start;
          dy = Y end' - Y start;
          distance = sqrt (dx * dx + dy * dy)
      in if distance = 0 then Inr ([start, end'], r)
         else (case interiorPoints start dx dy distance len [1..<len - 1] r of
                 Inl e \<Rightarrow> Inl e
               | Inr (ps, r1) \<Rightarrow> Inr (start # ps @ [end'], r1)))"

text \<open>The sampling loop of \<open>generateBezierPath\<close>, for the indices \<open>0 \<dots> numSteps\<close>.\<close>

fun samplePoints :: "Point list \<Rightarrow> int \<Rightarrow> nat list \<Rightarrow> error + Point list" where
  "samplePoints controlPoints numSteps [] = Inr []"
| "samplePoints controlPoints numSteps (i # rest) =
     (case fdiv (real i) (real_of_int numSteps) of
        Inl e \<Rightarrow> Inl e
      | Inr t \<Rightarrow>
          (let point = bezierPoint controlPoints (applyEasing t)
           in case samplePoints controlPoints numSteps rest of
                Inl e \<Rightarrow> Inl e
              | Inr ps \<Rightarrow> Inr (point # ps)))"

definition generateBezierPath :: "MouseMovementConfig \<Rightarrow> rand_src \<Rightarrow> Point \<Rightarrow> Point \<Rightarrow> int
    \<Rightarrow> error + (Point list \<times> rand_src)" where
  "generateBezierPath cfg r start end' numSteps =
     (case generateControlPoints cfg r start end' of
        Inl e \<Rightarrow> Inl e
      | Inr (controlPoints, r1) \<Rightarrow>
          (case samplePoints controlPoints numSteps [0..<nat (numSteps + 1)] of
             Inl e \<Rightarrow> Inl e
           | Inr path \<Rightarrow> Inr (path, r1)))"

definition addOvershoot :: "MouseMovementConfig \<Rightarrow> rand_src \<Rightarrow> Point list \<Rightarrow> Point
    \<Rightarrow> error + (Point list \<times> rand_src)" where
  "addOvershoot cfg r path target =
     (if length path = 0 then Inr (path, r)
      else
        (let last' = path ! (length path - 1);
             dx = X target - X last';
             dy = Y target - Y last';
             (f, r1) = Float64 r;
             overshootDistance = 5 + f * 15;
             overshoot = \<lparr>X = X target + dx * overshootDistance / 100,
                          Y = Y target + dy * overshootDistance / 100\<rparr>
         in case generateBezierPath cfg r1 overshoot target 20 of
              Inl e \<Rightarrow> Inl e
            | Inr (correctionPath, r2) \<Rightarrow>
                (if length correctionPath < 1 then Inl Panic
                 else Inr (path @ [overshoot] @ drop 1 correctionPath, r2))))"

text \<open>The loop of \<open>addMicroMovements\<close>; \<open>i\<close> is the index of the first point of the list.\<close>

fun microLoop :: "nat \<Rightarrow> nat \<Rightarrow> Point list \<Rightarrow> rand_src \<Rightarrow> Point list \<times> rand_src" where
  "microLoop len i [] r = ([], r)"
| "microLoop len i (p # ps) r =
     (let (fx, r1) = Float64 r;
          jitterX = (fx - 1 / 2) * 2;
          (fy, r2) = Float64 r1;
          jitterY = (fy - 1 / 2) * 2;
          moved = \<lparr>X = X p + jitterX, Y = Y p + jitterY\<rparr>
      in if i > 0 \<and> i < len - 1
         then
           (let (g, r3) = Float64 r2
            in if g < 1 / 10
               then
                 (let (px, r4) = Float64 r3;
                      pauseJitterX = (px - 1 / 2) * (1 / 2);
                      (py, r5) = Float64 r4;
                      pauseJitterY = (py - 1 / 2) * (1 / 2);
                      tremor = \<lparr>X = X p + pauseJitterX, Y = Y p + pauseJitterY\<rparr>;
                      (rest, r6) = microLoop len (i + 1) ps r5
                  in (moved # tremor # rest, r6))
               else (let (rest, r6) = microLoop len (i + 1) ps r3 in (moved # rest, r6)))
         else (let (rest, r6) = microLoop len (i + 1) ps r2 in (moved # rest, r6)))"

definition addMicroMovements :: "rand_src \<Rightarrow> Point list \<Rightarrow> Point list \<times> rand_src" where
  "addMicroMovements r path = microLoop (length path) 0 path r"

text \<open>The number of steps that \<open>GeneratePath\<close> computes from the distance.\<close>

definition stepCount :: "Point \<Rightarrow> Point \<Rightarrow> int" where
  "stepCount start end' =
     (let dist = sqrt ((X end' - X start) ^ 2 + (Y end' - Y start) ^ 2);
          numSteps = trunc (dist / 3);
          numSteps = (if numSteps < 30 then 30 else numSteps);
          numSteps = (if numSteps > 200 then 200 else numSteps)
      in numSteps)"

definition GeneratePath :: "MouseMovementConfig \<Rightarrow> rand_src \<Rightarrow> Point \<Rightarrow> Point
    \<Rightarrow> error + (Point list \<times> rand_src)" where
  "GeneratePath cfg r start end' =
     (if \<not> MouseMovementConfig.Enabled cfg then Inr ([start, end'], r)
      else
        (case generateBezierPath cfg r start end' (stepCount start end') of
           Inl e \<Rightarrow> Inl e
         | Inr (path, r1) \<Rightarrow>
             (case (if OvershootEnabled cfg
                    then (let (f, r2) = Float64 r1
                          in if f < 3 / 10 then addOvershoot cfg r2 path end' else Inr (path, r2))
                    else Inr (path, r1)) of
                Inl e \<Rightarrow> Inl e
              | Inr (path, r3) \<Rightarrow>
                  (if MicroMovements cfg then Inr (addMicroMovements r3 path)
                   else Inr (path, r3)))))"


text \<open>
  The overshoot branch of \<open>GeneratePath\<close> is taken when overshoot is enabled and the draw
  made right after the Bezier path was generated is below 0.3.
\<close>

definition overshootTriggered :: "MouseMovementConfig \<Rightarrow> rand_src \<Rightarrow> Point \<Rightarrow> Point \<Rightarrow> bool" where
  "overshootTriggered cfg r start end' =
     (OvershootEnabled cfg \<and>
      (case generateBezierPath cfg r start end' (stepCount start end') of
         Inl e \<Rightarrow> False
       | Inr (path, r1) \<Rightarrow> fst (Float64 r1) < 3 / 10))"

definition origin :: Point where
  "origin = \<lparr>X = 0, Y = 0\<rparr>"

definition far :: Point where
  "far = \<lparr>X = 1000, Y = 800\<rparr>"

definition plainMouse :: MouseMovementConfig where
  "plainMouse = \<lparr>MouseMovementConfig.Enabled = True, MinSpeed = 1 / 2, MaxSpeed = 2,
     OvershootEnabled = False, MicroMovements = False, BezierComplexity = 3\<rparr>"

definition overshootMouse :: MouseMovementConfig where
  "overshootMouse = \<lparr>MouseMovementConfig.Enabled = True, MinSpeed = 1 / 2, MaxSpeed = 2,
     OvershootEnabled = True, MicroMovements = False, BezierComplexity = 3\<rparr>"

subsection \<open>Facts about Bezier paths\<close>

lemma binomial_0: "0 \<le> n \<Longrightarrow> binomial n 0 = 1"
  by (simp add: binomial_def)

lemma binomial_n: "0 \<le> n \<Longrightarrow> binomial n n = 1"
  by (simp add: binomial_def)

lemma bernstein_at_0: "0 \<le> n \<Longrightarrow> 0 \<le> i \<Longrightarrow> bernstein n i 0 = (if i = 0 then 1 else 0)"
  by (simp add: bernstein_def binomial_0)

lemma bernstein_at_1: "0 \<le> i \<Longrightarrow> i \<le> n \<Longrightarrow> bernstein n i 1 = (if i = n then 1 else 0)"
  by (simp add: bernstein_def binomial_n)

lemma bezierSum_zero:
  "(\<And>j. i \<le> j \<Longrightarrow> j < i + int (length ps) \<Longrightarrow> bernstein n j t = 0)
     \<Longrightarrow> bezierSum n t i ps (x, y) = (x, y)"
proof (induction ps arbitrary: i x y)
  case Nil
  then show ?case by simp
next
  case (Cons p ps)
  have "bernstein n i t = 0" by (rule Cons.prems) simp_all
  moreover have "bezierSum n t (i + 1) ps (x, y) = (x, y)"
    by (rule Cons.IH) (rule Cons.prems, simp_all)
  ultimately show ?case by simp
qed

lemma bezierSum_append:
  "bezierSum n t i (ps @ qs) acc = bezierSum n t (i + int (length ps)) qs (bezierSum n t i ps acc)"
proof (induction ps arbitrary: i acc)
  case Nil
  obtain x y where acc: "acc = (x, y)" by (cases acc)
  show ?case by (simp add: acc)
next
  case (Cons p ps)
  obtain x y where acc: "acc = (x, y)" by (cases acc)
  show ?case by (simp add: acc Let_def Cons.IH add.assoc)
qed

lemma bezierPoint_at_0: "bezierPoint (p # ps) 0 = p"
proof -
  have "bezierSum (int (length ps)) 0 1 ps (X p, Y p) = (X p, Y p)"
    by (rule bezierSum_zero) (simp add: bernstein_at_0)
  then show ?thesis by (simp add: bezierPoint_def bernstein_at_0)
qed

lemma bezierSum_last:
  assumes "bernstein n n 1 = 1" and "bezierSum n 1 0 ps (0, 0) = (0, 0)" and "n = int (length ps)"
  shows "bezierSum n 1 0 (ps @ [q]) (0, 0) = (X q, Y q)"
proof -
  have "bezierSum n 1 0 (ps @ [q]) (0, 0) = bezierSum n 1 (0 + int (length ps)) [q] (bezierSum n 1 0 ps (0, 0))"
    by (rule bezierSum_append)
  also have "0 + int (length ps) = n" using assms(3) by simp
  also have "bezierSum n 1 0 ps (0, 0) = (0, 0)" by (rule assms(2))
  also have "bezierSum n 1 n [q] (0, 0) = (X q, Y q)" using assms(1) by simp
  finally show ?thesis .
qed

lemma bezierPoint_at_1: "bezierPoint (ps @ [q]) 1 = q"
proof -
  have z: "bezierSum (int (length ps)) 1 0 ps (0, 0) = (0, 0)"
    by (rule bezierSum_zero) (simp add: bernstein_at_1)
  have b: "bernstein (int (length ps)) (int (length ps)) 1 = 1" by (simp add: bernstein_at_1)
  have s: "bezierSum (int (length ps)) 1 0 (ps @ [q]) (0, 0) = (X q, Y q)"
    by (rule bezierSum_last [OF b z refl])
  have "int (length (ps @ [q])) - 1 = int (length ps)" by simp
  then have "bezierPoint (ps @ [q]) 1 = \<lparr>X = X q, Y = Y q\<rparr>"
    by (simp add: bezierPoint_def s)
  then show ?thesis by simp
qed

text \<open>
  In exact arithmetic a curve whose two control points coincide stays at that point. (In
  \<open>float64\<close> the sum \<open>x * (1 - t) + x * t\<close> can differ from \<open>x\<close> in the last digit.)
\<close>

lemma bezierPoint_same: "bezierPoint [p, p] t = p"
proof -
  have b0: "bernstein 1 0 t = 1 - t" by (simp add: bernstein_def binomial_def)
  have b1: "bernstein 1 1 t = t" by (simp add: bernstein_def binomial_def)
  have x: "X p * (1 - t) + X p * t = X p" by (simp add: right_diff_distrib)
  have y: "Y p * (1 - t) + Y p * t = Y p" by (simp add: right_diff_distrib)
  have "bezierSum 1 t 0 [p, p] (0, 0) = (X p * (1 - t) + X p * t, Y p * (1 - t) + Y p * t)"
    by (simp add: b0 b1 Let_def)
  then have s: "bezierSum 1 t 0 [p, p] (0, 0) = (X p, Y p)" unfolding x y .
  have "bezierPoint [p, p] t = (case bezierSum 1 t 0 [p, p] (0, 0) of (x, y) \<Rightarrow> \<lparr>X = x, Y = y\<rparr>)"
    by (simp add: bezierPoint_def del: bezierSum.simps)
  then show ?thesis unfolding s by simp
qed

lemma applyEasing_0: "applyEasing 0 = 0"
  by (simp add: applyEasing_def)

lemma applyEasing_1: "applyEasing 1 = 1"
  by (simp add: applyEasing_def)

lemma samplePoints_map:
  "numSteps \<noteq> 0 \<Longrightarrow>
   samplePoints cps numSteps is =
     Inr (map (\<lambda>i. bezierPoint cps (applyEasing (real i / real_of_int numSteps))) is)"
  by (induction "is") (simp_all add: fdiv_def)

lemma interiorPoints_ok:
  "distance \<noteq> 0 \<Longrightarrow> 2 \<le> len \<Longrightarrow>
     \<exists>ps r'. interiorPoints start dx dy distance len is r = Inr (ps, r')"
proof (induction "is" arbitrary: r)
  case Nil
  then show ?case by simp
next
  case (Cons i rest)
  obtain ps r' where "interiorPoints start dx dy distance len rest (snd (Float64 r)) = Inr (ps, r')"
    using Cons.IH [OF Cons.prems] by blast
  with Cons.prems show ?case by (simp add: fdiv_def Let_def case_prod_beta)
qed

lemma generateControlPoints_ok:
  "\<exists>ps r'. generateControlPoints cfg r start end' = Inr (start # ps @ [end'], r') \<and>
           (start = end' \<longrightarrow> ps = [] \<and> r' = r)"
proof -
  define len where "len = nat ((if BezierComplexity cfg < 2 then 2 else BezierComplexity cfg) + 2)"
  define dx where "dx = X end' - X start"
  define dy where "dy = Y end' - Y start"
  define distance where "distance = sqrt (dx * dx + dy * dy)"
  have len: "2 \<le> len" by (auto simp: len_def)
  show ?thesis
  proof (cases "distance = 0")
    case True
    then have "generateControlPoints cfg r start end' = Inr ([start, end'], r)"
      by (simp add: generateControlPoints_def Let_def distance_def dx_def dy_def)
    then show ?thesis by simp
  next
    case False
    then have ne: "start \<noteq> end'" by (auto simp: distance_def dx_def dy_def)
    from interiorPoints_ok [OF False len] obtain ps r' where
      "interiorPoints start dx dy distance len [1..<len - 1] r = Inr (ps, r')" by blast
    with False have "generateControlPoints cfg r start end' = Inr (start # ps @ [end'], r')"
      unfolding generateControlPoints_def Let_def distance_def dx_def dy_def len_def
      by (simp only: if_False sum.case prod.case)
    with ne show ?thesis by blast
  qed
qed

lemma generateBezierPath_ok:
  assumes n: "0 < numSteps"
  shows "\<exists>path r'. generateBezierPath cfg r start end' numSteps = Inr (path, r') \<and>
           length path = nat numSteps + 1 \<and> hd path = start \<and> last path = end' \<and>
           (start = end' \<longrightarrow> path = replicate (nat numSteps + 1) start \<and> r' = r)"
proof -
  from generateControlPoints_ok obtain ps r' where
    cp: "generateControlPoints cfg r start end' = Inr (start # ps @ [end'], r')"
    and same: "start = end' \<longrightarrow> ps = [] \<and> r' = r" by blast
  define cps where "cps = start # ps @ [end']"
  define f where "f = (\<lambda>i. bezierPoint cps (applyEasing (real i / real_of_int numSteps)))"
  define path where "path = map f [0..<nat (numSteps + 1)]"
  from n have "samplePoints cps numSteps [0..<nat (numSteps + 1)] = Inr path"
    by (simp add: samplePoints_map path_def f_def)
  with cp have g: "generateBezierPath cfg r start end' numSteps = Inr (path, r')"
    by (simp add: generateBezierPath_def cps_def)
  from n have len: "length path = nat numSteps + 1" by (simp add: path_def nat_add_distrib)
  from n have upt: "[0..<nat (numSteps + 1)] = 0 # [1..<nat (numSteps + 1)]"
    by (simp add: upt_conv_Cons)
  have "hd path = f 0" by (simp add: path_def upt)
  also have "\<dots> = start" by (simp add: f_def applyEasing_0 cps_def bezierPoint_at_0)
  finally have hd: "hd path = start" .
  from n have upt': "[0..<nat (numSteps + 1)] = [0..<nat numSteps] @ [nat numSteps]"
    by (simp add: nat_add_distrib)
  have "last path = f (nat numSteps)" by (simp add: path_def upt')
  also have "\<dots> = bezierPoint ((start # ps) @ [end']) 1"
    using n by (simp add: f_def applyEasing_1 cps_def)
  also have "\<dots> = end'" by (rule bezierPoint_at_1)
  finally have last: "last path = end'" .
  have rep: "path = replicate (nat numSteps + 1) start \<and> r' = r" if "start = end'"
  proof -
    from that same have "cps = [start, start]" "r' = r" by (simp_all add: cps_def)
    then have "f = (\<lambda>i. start)" by (simp add: f_def bezierPoint_same)
    with \<open>r' = r\<close> n show ?thesis by (simp add: path_def map_replicate_const nat_add_distrib)
  qed
  from g len hd last rep show ?thesis by blast
qed

lemma stepCount_range: "30 \<le> stepCount a b \<and> stepCount a b \<le> 200"
  by (simp add: stepCount_def Let_def)


lemma addOvershoot_on_target:
  assumes "path \<noteq> []" and "last path = target"
  shows "\<exists>r'. addOvershoot cfg r path target = Inr (path @ replicate 21 target, r')"
proof -
  from assms have l: "path ! (length path - 1) = target" by (simp add: last_conv_nth)
  define r1 where "r1 = snd (Float64 r)"
  from generateBezierPath_ok [of 20 cfg r1 target target]
  have g: "generateBezierPath cfg r1 target target 20 = Inr (replicate 21 target, r1)" by auto
  have o: "\<lparr>X = X target + (X target - X target) * (5 + fst (Float64 r) * 15) / 100,
            Y = Y target + (Y target - Y target) * (5 + fst (Float64 r) * 15) / 100\<rparr> = target"
    by simp
  from assms(1) have "addOvershoot cfg r path target = Inr (path @ [target] @ drop 1 (replicate 21 target), r1)"
    unfolding addOvershoot_def Let_def case_prod_beta l o r1_def [symmetric] g by simp
  also have "drop 1 (replicate 21 target) = replicate 20 target" by simp
  also have "[target] @ replicate 20 target = replicate (1 + 20) target"
    unfolding replicate_add by simp
  finally show ?thesis by simp
qed



lemma stepCount_far: "stepCount origin far = 200"
proof -
  have "(603::real)\<^sup>2 \<le> 1000\<^sup>2 + 800\<^sup>2" by simp
  then have "603 \<le> sqrt (1000\<^sup>2 + 800\<^sup>2)" by (rule real_le_rsqrt)
  then have "(201::real) \<le> sqrt (1000\<^sup>2 + 800\<^sup>2) / 3" by simp
  then have "201 \<le> \<lfloor>sqrt (1000\<^sup>2 + 800\<^sup>2) / 3\<rfloor>" by (simp add: le_floor_iff)
  moreover have "0 \<le> sqrt (1000\<^sup>2 + 800\<^sup>2) / 3" by simp
  ultimately have "201 \<le> trunc (sqrt (1000\<^sup>2 + 800\<^sup>2) / 3)" by (simp add: trunc_def)
  then show ?thesis by (simp add: stepCount_def Let_def origin_def far_def)
qed

lemma interiorPoints_draws:
  "interiorPoints start dx dy distance len is r = Inr (ps, r') \<Longrightarrow> floatDraws r' = floatDraws r"
proof (induction "is" arbitrary: r ps)
  case Nil
  then show ?case by simp
next
  case (Cons i rest)
  from Cons.prems obtain qs where
    "interiorPoints start dx dy distance len rest (snd (Float64 r)) = Inr (qs, r')"
    by (auto simp: Let_def case_prod_beta split: sum.splits)
  from Cons.IH [OF this] show ?case by (simp add: Float64_def)
qed

lemma generateBezierPath_draws:
  "generateBezierPath cfg r start end' numSteps = Inr (path, r') \<Longrightarrow> floatDraws r' = floatDraws r"
  by (auto simp: generateBezierPath_def generateControlPoints_def Let_def
      split: sum.splits if_splits dest: interiorPoints_draws)

lemma GeneratePath_no_micro:
  assumes en: "MouseMovementConfig.Enabled cfg" and mi: "\<not> MicroMovements cfg"
  shows "\<exists>bez r'. length bez = nat (stepCount start end') + 1 \<and> hd bez = start \<and> last bez = end' \<and>
           (start = end' \<longrightarrow> bez = replicate (nat (stepCount start end') + 1) start) \<and>
           GeneratePath cfg r start end' =
             Inr (if overshootTriggered cfg r start end' then bez @ replicate 21 end' else bez, r')"
proof -
  have pos: "0 < stepCount start end'" using stepCount_range [of start end'] by simp
  from generateBezierPath_ok [OF pos, of cfg r start end'] obtain bez r1 where
    g: "generateBezierPath cfg r start end' (stepCount start end') = Inr (bez, r1)"
    and len: "length bez = nat (stepCount start end') + 1"
    and hd: "hd bez = start" and last: "last bez = end'"
    and same: "start = end' \<longrightarrow> bez = replicate (nat (stepCount start end') + 1) start \<and> r1 = r"
    by blast
  from len have ne: "bez \<noteq> []" by auto
  show ?thesis
  proof (cases "overshootTriggered cfg r start end'")
    case True
    with g have ov: "OvershootEnabled cfg" and dr: "fst (Float64 r1) < 3 / 10"
      by (simp_all add: overshootTriggered_def)
    from addOvershoot_on_target [OF ne last, of cfg "snd (Float64 r1)"] obtain r' where
      "addOvershoot cfg (snd (Float64 r1)) bez end' = Inr (bez @ replicate 21 end', r')" by blast
    with g ov dr en mi have "GeneratePath cfg r start end' = Inr (bez @ replicate 21 end', r')"
      by (simp add: GeneratePath_def case_prod_beta)
    with True len hd last same show ?thesis by auto
  next
    case False
    with g have "\<not> OvershootEnabled cfg \<or> \<not> fst (Float64 r1) < 3 / 10"
      by (simp add: overshootTriggered_def)
    with g en mi have "\<exists>r'. GeneratePath cfg r start end' = Inr (bez, r')"
      by (auto simp: GeneratePath_def case_prod_beta)
    with False len hd last same show ?thesis by auto
  qed
qed



section \<open>Properties of pointer paths\<close>




text \<open>
  C6, as stated, fails for the upper bound: the step count is capped at 200 and the curve
  is sampled at \<open>steps + 1\<close> parameter values, so the path has 201 points.
\<close>

theorem path_length_counterexample:
  "\<not> length (fst (projr (GeneratePath plainMouse (constRand 0 (1 / 2)) origin far))) \<le> 200"
proof -
  have en: "MouseMovementConfig.Enabled plainMouse" and mi: "\<not> MicroMovements plainMouse"
    by (simp_all add: plainMouse_def)
  have no: "\<not> overshootTriggered plainMouse (constRand 0 (1 / 2)) origin far"
    by (simp add: overshootTriggered_def plainMouse_def)
  from GeneratePath_no_micro [OF en mi, of origin far "constRand 0 (1 / 2)"] no
  have "length (fst (projr (GeneratePath plainMouse (constRand 0 (1 / 2)) origin far))) =
      nat (stepCount origin far) + 1" by auto
  then show ?thesis by (simp add: stepCount_far)
qed

text \<open>
  C6, amended. For start \<open>(0,0)\<close>, end \<open>(1000,800)\<close>, overshoot and micro-movements disabled
  (whatever the Bezier complexity and the random draws), \<open>GeneratePath\<close> returns a path of
  exactly 201 points, so its number of points lies in \<open>[31, 201]\<close>; the first point is exactly
  \<open>(0,0)\<close> and the last exactly \<open>(1000,800)\<close>.
\<close>

theorem GeneratePath_far:
  assumes "MouseMovementConfig.Enabled cfg" and "\<not> OvershootEnabled cfg" and "\<not> MicroMovements cfg"
  shows "\<not> isl (GeneratePath cfg r origin far) \<and>
         length (fst (projr (GeneratePath cfg r origin far))) = 201 \<and>
         hd (fst (projr (GeneratePath cfg r origin far))) = origin \<and>
         last (fst (projr (GeneratePath cfg r origin far))) = far"
proof -
  from assms(2) have no: "\<not> overshootTriggered cfg r origin far"
    by (simp add: overshootTriggered_def)
  from GeneratePath_no_micro [OF assms(1) assms(3), of origin far r] no show ?thesis
    by (auto simp: stepCount_far)
qed

theorem GeneratePath_far_witness:
  "MouseMovementConfig.Enabled plainMouse \<and> \<not> OvershootEnabled plainMouse \<and>
   \<not> MicroMovements plainMouse \<and> BezierComplexity plainMouse = 3 \<and>
   \<not> isl (GeneratePath plainMouse (constRand 0 (1 / 2)) origin far) \<and>
   length (fst (projr (GeneratePath plainMouse (constRand 0 (1 / 2)) origin far))) = 201 \<and>
   hd (fst (projr (GeneratePath plainMouse (constRand 0 (1 / 2)) origin far))) = \<lparr>X = 0, Y = 0\<rparr> \<and>
   last (fst (projr (GeneratePath plainMouse (constRand 0 (1 / 2)) origin far))) = \<lparr>X = 1000, Y = 800\<rparr>"
proof -
  have c: "MouseMovementConfig.Enabled plainMouse" "\<not> OvershootEnabled plainMouse"
    "\<not> MicroMovements plainMouse" "BezierComplexity plainMouse = 3"
    by (simp_all add: plainMouse_def)
  from GeneratePath_far [OF c(1) c(2) c(3), of "constRand 0 (1 / 2)"] c show ?thesis
    by (simp add: origin_def far_def)
qed

text \<open>
  C7 at a concrete input: start \<open>(0,0)\<close>, end \<open>(1000,800)\<close>, overshoot enabled, every float
  draw 0.1 (so the 30% draw succeeds and the overshoot distance is 6.5%). The path has the
  201 Bezier points, then the appended overshoot point at index 201, then the 20 points of
  the corrective curve. The overshoot point is the target itself, not a point past it:
  \<open>addOvershoot\<close> measures the overshoot along the vector from the last path point to the
  target, and the Bezier path already ends exactly at the target. The path does end at the
  target.
\<close>

theorem overshoot_point_is_target:
  "overshootTriggered overshootMouse (constRand 0 (1 / 10)) origin far \<and>
   length (fst (projr (GeneratePath overshootMouse (constRand 0 (1 / 10)) origin far))) = 222 \<and>
   fst (projr (GeneratePath overshootMouse (constRand 0 (1 / 10)) origin far)) ! 201 = far \<and>
   last (fst (projr (GeneratePath overshootMouse (constRand 0 (1 / 10)) origin far))) = far"
proof -
  let ?r = "constRand 0 (1 / 10)"
  have en: "MouseMovementConfig.Enabled overshootMouse" and mi: "\<not> MicroMovements overshootMouse"
    and ov: "OvershootEnabled overshootMouse"
    by (simp_all add: overshootMouse_def)
  have pos: "0 < stepCount origin far" by (simp add: stepCount_far)
  from generateBezierPath_ok [OF pos, of overshootMouse ?r origin far] obtain bez0 r1 where
    g: "generateBezierPath overshootMouse ?r origin far (stepCount origin far) = Inr (bez0, r1)"
    by blast
  from generateBezierPath_draws [OF g] have "fst (Float64 r1) = 1 / 10"
    by (simp add: Float64_def constRand_def)
  with g ov have tr: "overshootTriggered overshootMouse ?r origin far"
    by (simp add: overshootTriggered_def)
  from GeneratePath_no_micro [OF en mi, of origin far ?r] tr obtain bez r' where
    len: "length bez = 201" and
    p: "GeneratePath overshootMouse ?r origin far = Inr (bez @ replicate 21 far, r')"
    by (auto simp: stepCount_far)
  from len have "(bez @ replicate 21 far) ! 201 = far" by (simp add: nth_append)
  with tr len p show ?thesis by simp
qed



section \<open>Keystroke sequences (the typing controller of package stealth)\<close>

text \<open>
  A rune is a code point. Delays are \<open>time.Duration\<close> values, modelled as their number
  of nanoseconds without wrap-around (they play no part in the replay).
\<close>

type_synonym rune = nat

text \<open>
  A Go string holding valid UTF-8 is modelled by the list of its code points; \<open>len\<close> counts
  bytes and \<open>range\<close> yields the byte offset of every code point.
\<close>

definition RuneLen :: "rune \<Rightarrow> nat" where
  "RuneLen c = (if c < 128 then 1 else if c < 2048 then 2 else if c < 65536 then 3 else 4)"

definition len_string :: "rune list \<Rightarrow> nat" where
  "len_string text = sum_list (map RuneLen text)"

fun range_string :: "nat \<Rightarrow> rune list \<Rightarrow> (nat \<times> rune) list" where
  "range_string off [] = []"
| "range_string off (c # cs) = (off, c) # range_string (off + RuneLen c) cs"

definition runes_of :: "string \<Rightarrow> rune list" where
  "runes_of s = map of_char s"

text \<open>\<open>strings.IndexRune\<close> on an ASCII string: the position of the first occurrence, or -1.\<close>

fun IndexRune :: "rune list \<Rightarrow> rune \<Rightarrow> int" where
  "IndexRune [] c = - 1"
| "IndexRune (x # xs) c =
     (if x = c then 0 else (let i = IndexRune xs c in if i < 0 then - 1 else i + 1))"

definition ContainsRune :: "rune list \<Rightarrow> rune \<Rightarrow> bool" where
  "ContainsRune s c = (IndexRune s c \<ge> 0)"

text \<open>
  Package \<open>unicode\<close> is not part of the repository: its four functions used by the typing
  controller are parameters of the model.
\<close>

record unicode =
  IsSpace :: "rune \<Rightarrow> bool"
  IsUpper :: "rune \<Rightarrow> bool"
  ToLower :: "rune \<Rightarrow> rune"
  ToUpper :: "rune \<Rightarrow> rune"

record TypingConfig =
  Enabled :: bool
  MinKeyDelay :: int
  MaxKeyDelay :: int
  TypoChance :: real
  CorrectionDelay :: int
  ThinkPauseChance :: real

record KeyStroke =
  Char :: rune
  Delay :: int
  IsTypo :: bool
  Backspace :: bool

definition abs' :: "int \<Rightarrow> int" where
  "abs' x = (if x < 0 then - x else x)"

definition keyboardRows :: "rune list list" where
  "keyboardRows = [runes_of ''qwertyuiop'', runes_of ''asdfghjkl'', runes_of ''zxcvbnm'']"

fun adjacentInRows :: "rune list list \<Rightarrow> rune \<Rightarrow> rune \<Rightarrow> bool" where
  "adjacentInRows [] prevLower currLower = False"
| "adjacentInRows (row # rows) prevLower currLower =
     (let prevIdx = IndexRune row prevLower;
          currIdx = IndexRune row currLower
      in if prevIdx \<ge> 0 \<and> currIdx \<ge> 0 \<and> abs' (prevIdx - currIdx) = 1 then True
         else adjacentInRows rows prevLower currLower)"

definition areAdjacent :: "unicode \<Rightarrow> rune \<Rightarrow> rune \<Rightarrow> bool" where
  "areAdjacent uc prev curr' = adjacentInRows keyboardRows (ToLower uc prev) (ToLower uc curr')"

definition calculateKeyDelay :: "TypingConfig \<Rightarrow> unicode \<Rightarrow> rune \<Rightarrow> nat \<Rightarrow> rune list \<Rightarrow> rand_src
    \<Rightarrow> error + (int \<times> rand_src)" where
  "calculateKeyDelay cfg uc char position text r =
     (case Intn (MaxKeyDelay cfg - MinKeyDelay cfg) r of
        Inl e \<Rightarrow> Inl e
      | Inr (k, r1) \<Rightarrow>
          (let base = MinKeyDelay cfg + k;
               base = (if IsSpace uc char then trunc (real_of_int base * (7 / 10)) else base);
               base = (if IsUpper uc char then trunc (real_of_int base * (13 / 10)) else base);
               base = (if ContainsRune (runes_of ''@#$%^&*()_+{}|:<>?'') char
                       then trunc (real_of_int base * (15 / 10)) else base);
               base = (if position > 0 \<and> areAdjacent uc (text ! (position - 1)) char
                       then trunc (real_of_int base * (85 / 100)) else base);
               (f, r2) = Float64 r1;
               variation = real_of_int base * (2 / 10) * (f * 2 - 1)
           in Inr (base + trunc variation, r2)))"

definition isWordBoundary :: "unicode \<Rightarrow> nat \<Rightarrow> rune list \<Rightarrow> bool" where
  "isWordBoundary uc position text =
     (if position = 0 then False
      else (let prevIsSpace = IsSpace uc (text ! (position - 1));
                currIsSpace = IsSpace uc (text ! position)
            in \<not> prevIsSpace \<and> currIsSpace))"

definition keyboardLayout :: "rune \<Rightarrow> rune list option" where
  "keyboardLayout = map_of (map (\<lambda>(k, v). (of_char k, runes_of v))
     [(CHR ''q'', ''wa''), (CHR ''w'', ''qesa''), (CHR ''e'', ''wrds''), (CHR ''r'', ''etfd''),
      (CHR ''t'', ''rygf''), (CHR ''y'', ''tuhg''), (CHR ''u'', ''yijh''), (CHR ''i'', ''uokj''),
      (CHR ''o'', ''iplk''), (CHR ''p'', ''ol''), (CHR ''a'', ''qwsz''), (CHR ''s'', ''awedxz''),
      (CHR ''d'', ''serfcx''), (CHR ''f'', ''drtgvc''), (CHR ''g'', ''ftyhbv''),
      (CHR ''h'', ''gyujnb''), (CHR ''j'', ''huikmn''), (CHR ''k'', ''jiolm''), (CHR ''l'', ''kop''),
      (CHR ''z'', ''asx''), (CHR ''x'', ''zsdc''), (CHR ''c'', ''xdfv''), (CHR ''v'', ''cfgb''),
      (CHR ''b'', ''vghn''), (CHR ''n'', ''bhjm''), (CHR ''m'', ''njk'')])"

definition generateTypo :: "unicode \<Rightarrow> rune \<Rightarrow> rand_src \<Rightarrow> error + (rune \<times> rand_src)" where
  "generateTypo uc char r =
     (let lowerChar = ToLower uc char
      in case keyboardLayout lowerChar of
           Some adjacent \<Rightarrow>
             (case Intn (int (length adjacent)) r of
                Inl e \<Rightarrow> Inl e
              | Inr (k, r1) \<Rightarrow>
                  (let typo = adjacent ! nat k
                   in if IsUpper uc char then Inr (ToUpper uc typo, r1) else Inr (typo, r1)))
         | None \<Rightarrow> Inr (char, r))"

text \<open>The keystrokes appended for the rune at index \<open>i\<close>.\<close>

definition keysFor :: "TypingConfig \<Rightarrow> unicode \<Rightarrow> rune list \<Rightarrow> nat \<Rightarrow> rand_src
    \<Rightarrow> error + (KeyStroke list \<times> rand_src)" where
  "keysFor cfg uc runes i r =
     (let char = runes ! i
      in case calculateKeyDelay cfg uc char i runes r of
           Inl e \<Rightarrow> Inl e
         | Inr (delay, r1) \<Rightarrow>
             (let (f, r2) = Float64 r1
              in case (if f < ThinkPauseChance cfg \<and> isWordBoundary uc i runes
                       then (case Intn 1500 r2 of
                               Inl e \<Rightarrow> Inl e
                             | Inr (k, r3) \<Rightarrow> Inr (delay + (500 + k) * Millisecond, r3))
                       else Inr (delay, r2)) of
                   Inl e \<Rightarrow> Inl e
                 | Inr (delay, r4) \<Rightarrow>
                     (let (g, r5) = Float64 r4
                      in if g < TypoChance cfg \<and> \<not> IsSpace uc char
                         then
                           (case generateTypo uc char r5 of
                              Inl e \<Rightarrow> Inl e
                            | Inr (typoChar, r6) \<Rightarrow>
                                (case calculateKeyDelay cfg uc char i runes r6 of
                                   Inl e \<Rightarrow> Inl e
                                 | Inr (delay2, r7) \<Rightarrow>
                                     Inr ([\<lparr>Char = typoChar, Delay = delay, IsTypo = True, Backspace = False\<rparr>,
                                           \<lparr>Char = 0, Delay = CorrectionDelay cfg, IsTypo = False, Backspace = True\<rparr>,
                                           \<lparr>Char = char, Delay = delay2, IsTypo = False, Backspace = False\<rparr>],
                                          r7)))
                         else Inr ([\<lparr>Char = char, Delay = delay, IsTypo = False, Backspace = False\<rparr>], r5))))"

text \<open>The loop of the enabled path over the indices of \<open>[]rune(text)\<close>.\<close>

fun keysLoop :: "TypingConfig \<Rightarrow> unicode \<Rightarrow> rune list \<Rightarrow> nat list \<Rightarrow> rand_src
    \<Rightarrow> error + KeyStroke list" where
  "keysLoop cfg uc runes [] r = Inr []"
| "keysLoop cfg uc runes (i # rest) r =
     (case keysFor cfg uc runes i r of
        Inl e \<Rightarrow> Inl e
      | Inr (new, r1) \<Rightarrow>
          (case keysLoop cfg uc runes rest r1 of
             Inl e \<Rightarrow> Inl e
           | Inr ks \<Rightarrow> Inr (new @ ks)))"

text \<open>
  The disabled path: \<open>make([]KeyStroke, len(text))\<close> gives one zero-valued keystroke per
  byte, and the \<open>range\<close> loop stores a keystroke at the byte offset of every character.
\<close>

definition zeroKeyStroke :: KeyStroke where
  "zeroKeyStroke = \<lparr>Char = 0, Delay = 0, IsTypo = False, Backspace = False\<rparr>"

fun fillKeys :: "(nat \<times> rune) list \<Rightarrow> KeyStroke list \<Rightarrow> error + KeyStroke list" where
  "fillKeys [] keystrokes = Inr keystrokes"
| "fillKeys ((i, char) # rest) keystrokes =
     (if i < length keystrokes
      then fillKeys rest (keystrokes[i := \<lparr>Char = char, Delay = 0, IsTypo = False, Backspace = False\<rparr>])
      else Inl Panic)"

definition GenerateKeystrokes :: "TypingConfig \<Rightarrow> unicode \<Rightarrow> rand_src \<Rightarrow> rune list
    \<Rightarrow> error + KeyStroke list" where
  "GenerateKeystrokes cfg uc r text =
     (if \<not> TypingConfig.Enabled cfg
      then fillKeys (range_string 0 text) (replicate (len_string text) zeroKeyStroke)
      else keysLoop cfg uc text [0..<length text] r)"

text \<open>
  Replaying a keystroke sequence as the specification describes it: a backspace removes
  the character applied last, any other event appends its character.
\<close>

fun replay :: "KeyStroke list \<Rightarrow> rune list \<Rightarrow> rune list" where
  "replay [] typed = typed"
| "replay (k # ks) typed =
     replay ks (if Backspace k then butlast typed else typed @ [KeyStroke.Char k])"

text \<open>An instance of the four functions that agrees with package \<open>unicode\<close> on ASCII.\<close>

definition asciiUnicode :: unicode where
  "asciiUnicode = \<lparr>IsSpace = (\<lambda>c. c \<in> {9, 10, 11, 12, 13, 32, 133, 160}),
     IsUpper = (\<lambda>c. 65 \<le> c \<and> c \<le> 90),
     ToLower = (\<lambda>c. if 65 \<le> c \<and> c \<le> 90 then c + 32 else c),
     ToUpper = (\<lambda>c. if 97 \<le> c \<and> c \<le> 122 then c - 32 else c)\<rparr>"

definition defaultTyping :: TypingConfig where
  "defaultTyping = \<lparr>TypingConfig.Enabled = True, MinKeyDelay = 50 * Millisecond,
     MaxKeyDelay = 150 * Millisecond, TypoChance = 2 / 100, CorrectionDelay = 300 * Millisecond,
     ThinkPauseChance = 5 / 100\<rparr>"

definition disabledTyping :: TypingConfig where
  "disabledTyping = defaultTyping\<lparr>TypingConfig.Enabled := False\<rparr>"


subsection \<open>Facts about keystroke sequences\<close>

lemma replay_append: "replay (xs @ ys) typed = replay ys (replay xs typed)"
  by (induction xs arbitrary: typed) simp_all

lemma keysFor_replay:
  "keysFor cfg uc runes i r = Inr (new, r') \<Longrightarrow> replay new typed = typed @ [runes ! i]"
  by (auto simp: keysFor_def Let_def case_prod_beta split: sum.splits if_splits)

lemma keysLoop_replay:
  "keysLoop cfg uc runes is r = Inr ks \<Longrightarrow> replay ks typed = typed @ map (\<lambda>i. runes ! i) is"
proof (induction "is" arbitrary: r ks typed)
  case Nil
  then show ?case by simp
next
  case (Cons i rest)
  from Cons.prems obtain new r1 ks' where
    k: "keysFor cfg uc runes i r = Inr (new, r1)"
    and l: "keysLoop cfg uc runes rest r1 = Inr ks'"
    and ks: "ks = new @ ks'"
    by (auto split: sum.splits)
  from keysFor_replay [OF k] Cons.IH [OF l] show ?case
    by (simp add: ks replay_append)
qed

lemma Intn_not_Inl: "0 < n \<Longrightarrow> Intn n r \<noteq> Inl e"
  by (simp add: Intn_def)

lemma calculateKeyDelay_not_Inl:
  "MinKeyDelay cfg < MaxKeyDelay cfg \<Longrightarrow> calculateKeyDelay cfg uc char position text r \<noteq> Inl e"
  by (simp add: calculateKeyDelay_def Intn_def Let_def case_prod_beta)

lemma keyboardLayout_nonempty: "keyboardLayout c = Some adjacent \<Longrightarrow> adjacent \<noteq> []"
  by (auto simp: keyboardLayout_def runes_of_def split: if_splits)

lemma generateTypo_not_Inl: "generateTypo uc char r \<noteq> Inl e"
proof (cases "keyboardLayout (ToLower uc char)")
  case None
  then show ?thesis by (simp add: generateTypo_def)
next
  case (Some adjacent)
  from keyboardLayout_nonempty [OF Some] have "0 < int (length adjacent)" by simp
  then show ?thesis using Some by (simp add: generateTypo_def Intn_def Let_def)
qed

lemma keysFor_not_Inl:
  assumes "MinKeyDelay cfg < MaxKeyDelay cfg"
  shows "keysFor cfg uc runes i r \<noteq> Inl e"
  using calculateKeyDelay_not_Inl [OF assms] generateTypo_not_Inl Intn_not_Inl [of 1500]
  by (auto simp: keysFor_def Let_def case_prod_beta split: sum.splits if_splits)

lemma keysFor_ok:
  assumes "MinKeyDelay cfg < MaxKeyDelay cfg"
  shows "\<exists>new r'. keysFor cfg uc runes i r = Inr (new, r')"
  using keysFor_not_Inl [OF assms, of uc runes i r]
  by (cases "keysFor cfg uc runes i r") auto

lemma keysLoop_ok:
  assumes "MinKeyDelay cfg < MaxKeyDelay cfg"
  shows "\<exists>ks. keysLoop cfg uc runes is r = Inr ks"
proof (induction "is" arbitrary: r)
  case Nil
  then show ?case by simp
next
  case (Cons i rest)
  from keysFor_ok [OF assms] obtain new r1 where "keysFor cfg uc runes i r = Inr (new, r1)" by blast
  moreover from Cons.IH obtain ks where "keysLoop cfg uc runes rest r1 = Inr ks" by blast
  ultimately show ?case by simp
qed

text \<open>The keystroke of the disabled path for one character.\<close>

definition plainKey :: "rune \<Rightarrow> KeyStroke" where
  "plainKey c = \<lparr>Char = c, Delay = 0, IsTypo = False, Backspace = False\<rparr>"

lemma fillKeys_ascii:
  assumes "\<forall>c \<in> set cs. c < 128"
  shows "fillKeys (range_string (length pre) cs) (pre @ replicate (len_string cs) zeroKeyStroke) =
           Inr (pre @ map plainKey cs)"
  using assms
proof (induction cs arbitrary: pre)
  case Nil
  then show ?case by (simp add: len_string_def)
next
  case (Cons c cs)
  from Cons.prems have c: "RuneLen c = 1" and rest: "\<forall>c \<in> set cs. c < 128"
    by (simp_all add: RuneLen_def)
  have "fillKeys (range_string (length (pre @ [plainKey c])) cs)
          ((pre @ [plainKey c]) @ replicate (len_string cs) zeroKeyStroke) =
        Inr ((pre @ [plainKey c]) @ map plainKey cs)"
    by (rule Cons.IH [OF rest])
  then show ?case by (simp add: c len_string_def plainKey_def)
qed

lemma replay_plain: "replay (map plainKey cs) typed = typed @ cs"
  by (induction cs arbitrary: typed) (simp_all add: plainKey_def)

lemma GenerateKeystrokes_enabled:
  assumes "TypingConfig.Enabled cfg"
  shows "(MinKeyDelay cfg < MaxKeyDelay cfg \<longrightarrow> (\<exists>ks. GenerateKeystrokes cfg uc r text = Inr ks)) \<and>
         (\<forall>ks. GenerateKeystrokes cfg uc r text = Inr ks \<longrightarrow> replay ks [] = text)"
proof (intro conjI allI impI)
  assume "MinKeyDelay cfg < MaxKeyDelay cfg"
  from keysLoop_ok [OF this] assms show "\<exists>ks. GenerateKeystrokes cfg uc r text = Inr ks"
    by (simp add: GenerateKeystrokes_def)
next
  fix ks assume "GenerateKeystrokes cfg uc r text = Inr ks"
  with assms have "keysLoop cfg uc text [0..<length text] r = Inr ks"
    by (simp add: GenerateKeystrokes_def)
  from keysLoop_replay [OF this, of "[]"] show "replay ks [] = text"
    by (simp add: map_nth)
qed

lemma GenerateKeystrokes_disabled_ascii:
  assumes "\<not> TypingConfig.Enabled cfg" and "\<forall>c \<in> set text. c < 128"
  shows "GenerateKeystrokes cfg uc r text = Inr (map plainKey text) \<and>
         replay (map plainKey text) [] = text"
  using assms fillKeys_ascii [of "text" "[]"]
  by (simp add: GenerateKeystrokes_def replay_plain)

section \<open>Properties of keystroke sequences\<close>

text \<open>
  C2 at a concrete input: typing disabled, the text is the single character U+00E9 (code
  point 233, two bytes in UTF-8). The disabled path allocates one keystroke per byte and
  fills only the slots at the byte offsets where a character starts, so a second
  keystroke with character 0 is left, and the replay yields two characters instead of
  one. (The enabled path iterates over \<open>[]rune(text)\<close> and reconstructs every text, and
  the disabled path reconstructs every ASCII text.)
\<close>

theorem disabled_multibyte_replay:
  "GenerateKeystrokes disabledTyping asciiUnicode (constRand 0 (1 / 2)) [233] =
     Inr [\<lparr>Char = 233, Delay = 0, IsTypo = False, Backspace = False\<rparr>,
          \<lparr>Char = 0, Delay = 0, IsTypo = False, Backspace = False\<rparr>] \<and>
   replay [\<lparr>Char = 233, Delay = 0, IsTypo = False, Backspace = False\<rparr>,
           \<lparr>Char = 0, Delay = 0, IsTypo = False, Backspace = False\<rparr>] [] = [233, 0] \<and>
   [233, 0] \<noteq> [233 :: rune]"
  by (simp add: GenerateKeystrokes_def disabledTyping_def defaultTyping_def len_string_def
      RuneLen_def zeroKeyStroke_def numeral_2_eq_2)


end
